theory Spec2Isabelle
  imports
    Complex_Main
    "HOL-Library.Word"
    "HOL-Library.Multiset"
    "HOL-Library.Sublist"
    "HOL-Library.Product_Lexorder"
    "HOL-Library.List_Lexorder"
begin

section \<open>Constants of convert.py\<close>

text \<open>
  \<^verbatim>\<open>WIDTH = 80\<close>, \<^verbatim>\<open>HEIGHT = int(WIDTH / (2 * ASPECT_RATIO))\<close> with
  \<^verbatim>\<open>ASPECT_RATIO = 16 / 9\<close>, that is \<^verbatim>\<open>int(22.5) = 22\<close>;
  \<^verbatim>\<open>NUMCHARS = len(CHARSET) = 7\<close>.
\<close>

definition WIDTH :: nat where "WIDTH = 80"
definition HEIGHT :: nat where "HEIGHT = 22"
definition NUMCHARS :: nat where "NUMCHARS = 7"

section \<open>compute_huffman\<close>

text \<open>
  An entry of the working list \<^verbatim>\<open>sizes\<close> is the Python tuple
  \<^verbatim>\<open>(count, members, node_id)\<close>. The counts are whatever the caller passes
  (the main loop passes \<^verbatim>\<open>np.uint16\<close> scalars, a test may pass Python ints), so the
  model is polymorphic in the count type: it only compares and adds counts.
  Python compares tuples and lists lexicographically; that is the order the
  product and list instances of \<open>linorder\<close> give here.
\<close>

type_synonym 'a entry = "'a \<times> nat list \<times> nat"

definition e_count :: "'a entry \<Rightarrow> 'a" where "e_count e = fst e"
definition e_members :: "'a entry \<Rightarrow> nat list" where "e_members e = fst (snd e)"
definition e_node :: "'a entry \<Rightarrow> nat" where "e_node e = snd (snd e)"

text \<open>Lines 124-127: one code, one entry and one leaf per symbol.\<close>

definition seed_sizes :: "'a list \<Rightarrow> 'a entry list" where
  "seed_sizes cnts = map (\<lambda>i. (cnts ! i, [i], i)) [0..<length cnts]"

text \<open>Line 129: \<^verbatim>\<open>sizes = sorted(sizes, reverse=True)\<close>.\<close>

definition sorted_reverse :: "('a::linorder) entry list \<Rightarrow> 'a entry list" where
  "sorted_reverse xs = rev (sort xs)"

text \<open>
  Lines 143-146: \<^verbatim>\<open>for char in chars: codes[char] = bit + codes[char]\<close>;
  an index outside \<^verbatim>\<open>codes\<close> raises IndexError (\<open>None\<close>).
\<close>

fun prepend_bit :: "char \<Rightarrow> nat list \<Rightarrow> string list \<Rightarrow> string list option" where
  "prepend_bit b [] codes = Some codes"
| "prepend_bit b (c # cs) codes =
     (if c < length codes then prepend_bit b cs (codes[c := b # codes ! c]) else None)"

text \<open>
  Lines 152-162: scan from the front; insert before the first entry whose count is
  \<open>\<le>\<close> the merged count, append when the end is reached.
\<close>

fun insert_entry :: "('a::linorder) entry \<Rightarrow> 'a entry list \<Rightarrow> 'a entry list" where
  "insert_entry new [] = [new]"
| "insert_entry new (e # es) =
     (if e_count e \<le> e_count new then new # e # es else e # insert_entry new es)"

text \<open>
  The loop state is the three local variables \<^verbatim>\<open>codes\<close>, \<^verbatim>\<open>sizes\<close>,
  \<^verbatim>\<open>tree\<close>. One iteration of the \<^verbatim>\<open>while\<close> body (lines 133-162);
  \<^verbatim>\<open>pop()\<close> on an empty list raises IndexError.
\<close>

type_synonym 'a hstate = "string list \<times> 'a entry list \<times> (nat \<times> nat) list"

definition merge_step :: "('a::{linorder,plus}) hstate \<Rightarrow> 'a hstate option" where
  "merge_step st =
     (case st of (codes, sizes, tree) \<Rightarrow>
        if sizes = [] then None
        else let right = last sizes; sizes1 = butlast sizes in
        if sizes1 = [] then None
        else let left = last sizes1; sizes2 = butlast sizes1;
                 tree1 = tree @ [(e_node left, e_node right)] in
        (case prepend_bit (CHR ''0'') (e_members left) codes of
           None \<Rightarrow> None
         | Some codes1 \<Rightarrow>
             (case prepend_bit (CHR ''1'') (e_members right) codes1 of
                None \<Rightarrow> None
              | Some codes2 \<Rightarrow>
                  let new = (e_count left + e_count right,
                             e_members left @ e_members right,
                             length tree1 - 1)
                  in Some (codes2, insert_entry new sizes2, tree1))))"

function huffman_loop :: "('a::{linorder,plus}) hstate \<Rightarrow> (string list \<times> (nat \<times> nat) list) option" where
  "huffman_loop (codes, sizes, tree) =
     (if length sizes > 1 then
        (case merge_step (codes, sizes, tree) of
           None \<Rightarrow> None
         | Some st' \<Rightarrow> huffman_loop st')
      else Some (codes, tree))"
  by pat_completeness auto
termination
proof (relation "measure (\<lambda>(codes, sizes, tree). length sizes)")
  show "wf (measure (\<lambda>(codes, sizes, tree). length sizes))" by simp
next
  fix codes :: "string list" and sizes :: "'a entry list" and tree st'
  assume long: "1 < length sizes" and step: "merge_step (codes, sizes, tree) = Some st'"
  have ins: "length (insert_entry new es) = Suc (length es)" for new :: "'a entry" and es
    by (induction es) auto
  have len: "Suc (Suc (length (butlast (butlast sizes)))) = length sizes"
    using long by (cases sizes rule: rev_cases) (auto simp: neq_Nil_conv)
  obtain codes' sizes' tree' where st': "st' = (codes', sizes', tree')"
    by (cases st') auto
  from step have "Suc (length sizes') = length sizes"
    using len by (auto simp: st' merge_step_def Let_def ins split: if_splits option.splits)
  then show "(st', codes, sizes, tree) \<in> measure (\<lambda>(codes, sizes, tree). length sizes)"
    by (simp add: st')
qed

text \<open>Lines 121-129: the state when the loop is entered.\<close>

definition huffman_init :: "('a::linorder) list \<Rightarrow> 'a hstate" where
  "huffman_init cnts =
     (replicate (length cnts) [],
      sorted_reverse (seed_sizes cnts),
      map (\<lambda>i. (i, i)) [0..<length cnts])"

definition compute_huffman :: "('a::{linorder,plus}) list \<Rightarrow> (string list \<times> (nat \<times> nat) list) option" where
  "compute_huffman cnts = huffman_loop (huffman_init cnts)"

text \<open>
  The state at the head of the \<^verbatim>\<open>while\<close> loop after \<open>k\<close> iterations
  (\<open>None\<close> when the loop has ended before, or an iteration raised).
\<close>

fun loop_state :: "('a::{linorder,plus}) list \<Rightarrow> nat \<Rightarrow> 'a hstate option" where
  "loop_state cnts 0 = Some (huffman_init cnts)"
| "loop_state cnts (Suc k) =
     (case loop_state cnts k of
        None \<Rightarrow> None
      | Some (codes, sizes, tree) \<Rightarrow>
          if length sizes > 1 then merge_step (codes, sizes, tree) else None)"

section \<open>encode_tree\<close>

text \<open>Lines 232-237: drop the \<^verbatim>\<open>len(CHARSET)\<close> leaves, one byte value per node.\<close>

definition encode_tree :: "(nat \<times> nat) list \<Rightarrow> nat list" where
  "encode_tree tree = map (\<lambda>(l, r). l * 16 + r) (drop NUMCHARS tree)"

section \<open>Properties of a codeword table\<close>

text \<open>The Kraft sum of a list of codewords, and prefix-freeness of a table.\<close>

definition kraft_sum :: "string list \<Rightarrow> rat" where
  "kraft_sum cs = sum_list (map (\<lambda>c. 1 / 2 ^ length c) cs)"

definition prefix_free :: "string list \<Rightarrow> bool" where
  "prefix_free cs =
     (\<forall>i\<in>{0..<length cs}. \<forall>j\<in>{0..<length cs}. i \<noteq> j \<longrightarrow> \<not> prefix (cs ! i) (cs ! j))"

text \<open>The Kraft sum restricted to the symbols whose count is not zero.\<close>

definition kraft_nonzero :: "('a::zero) list \<Rightarrow> string list \<Rightarrow> rat" where
  "kraft_nonzero cnts cs =
     sum_list (map (\<lambda>i. 1 / 2 ^ length (cs ! i)) (filter (\<lambda>i. cnts ! i \<noteq> 0) [0..<length cs]))"

section \<open>The loop invariant of compute_huffman\<close>

text \<open>
  The codewords of the members of one entry form a complete prefix code of their own.
\<close>

definition entry_ok :: "string list \<Rightarrow> 'a entry \<Rightarrow> bool" where
  "entry_ok codes e \<longleftrightarrow>
     kraft_sum (map (\<lambda>s. codes ! s) (e_members e)) = 1 \<and>
     (\<forall>a\<in>set (e_members e). \<forall>b\<in>set (e_members e).
        a \<noteq> b \<longrightarrow> \<not> prefix (codes ! a) (codes ! b))"

definition tree_ok :: "nat \<Rightarrow> (nat \<times> nat) list \<Rightarrow> bool" where
  "tree_ok n tree \<longleftrightarrow>
     n \<le> length tree \<and>
     (\<forall>k<length tree. if k < n then tree ! k = (k, k)
                        else fst (tree ! k) < k \<and> snd (tree ! k) < k)"

definition hinv :: "nat \<Rightarrow> 'a hstate \<Rightarrow> bool" where
  "hinv n st \<longleftrightarrow>
     (case st of (codes, sizes, tree) \<Rightarrow>
        length codes = n \<and> sizes \<noteq> [] \<and> length tree + length sizes = 2 * n \<and>
        mset (concat (map e_members sizes)) = mset [0..<n] \<and>
        (\<forall>e\<in>set sizes. e_node e < length tree \<and> entry_ok codes e) \<and>
        tree_ok n tree)"

text \<open>What \<open>prepend_bit\<close> returns when every index is in range and no index repeats.\<close>

definition prepended :: "char \<Rightarrow> nat set \<Rightarrow> string list \<Rightarrow> string list" where
  "prepended b S codes = map (\<lambda>i. if i \<in> S then b # codes ! i else codes ! i) [0..<length codes]"

text \<open>What the loop establishes when it ends.\<close>

definition hfinal :: "nat \<Rightarrow> string list \<Rightarrow> (nat \<times> nat) list \<Rightarrow> bool" where
  "hfinal n codes tree \<longleftrightarrow>
     length codes = n \<and> length tree = 2 * n - 1 \<and> tree_ok n tree \<and>
     kraft_sum codes = 1 \<and> prefix_free codes"

section \<open>compute_markov\<close>

text \<open>
  The frame is a two-dimensional numpy array of symbols; it is modelled as the list of
  its rows, and the raster scan \<^verbatim>\<open>for y in range(h): for x in range(w)\<close> visits
  \<open>concat frame\<close>. A symbol is a \<open>nat\<close> (the quantized frame holds 0..6); a symbol
  that is no index of the 7x7 matrix raises IndexError (\<open>None\<close>).
  \<^verbatim>\<open>mat\<close> and \<^verbatim>\<open>cnt\<close> are \<^verbatim>\<open>np.uint16\<close> arrays: \<^verbatim>\<open>+= 1\<close> wraps at
  \<open>2 ^ 16\<close>.
\<close>

type_synonym u16 = "16 word"

text \<open>Lines 87-95: \<^verbatim>\<open>mat[prevChar, char] += 1; prevChar = char\<close>.\<close>

fun count_pairs :: "u16 list list \<Rightarrow> nat \<Rightarrow> nat list \<Rightarrow> u16 list list option" where
  "count_pairs mat prevChar [] = Some mat"
| "count_pairs mat prevChar (char # cs) =
     (if prevChar < length mat \<and> char < length (mat ! prevChar)
      then count_pairs (mat[prevChar := (mat ! prevChar)[char := mat ! prevChar ! char + 1]]) char cs
      else None)"

text \<open>
  Line 99: \<^verbatim>\<open>ranks[i][mat[i].argsort()] = 6 - np.arange(NUMCHARS)\<close>.
  \<^verbatim>\<open>argsort\<close> returns the indices in ascending order of their counts; on seven
  elements numpy's default sort is an insertion sort, which keeps equal counts in index
  order, as \<open>sort_key\<close> does. The assignment through the index array stores the
  \<open>k\<close>-th value at the \<open>k\<close>-th index, one after the other.
\<close>

definition argsort :: "u16 list \<Rightarrow> nat list" where
  "argsort row = sort_key (\<lambda>j. row ! j) [0..<length row]"

fun scatter :: "nat list \<Rightarrow> 'a list \<Rightarrow> 'a list \<Rightarrow> 'a list" where
  "scatter (j # js) (v # vs) base = scatter js vs (base[j := v])"
| "scatter js vs base = base"

definition rank_row :: "u16 list \<Rightarrow> nat list" where
  "rank_row row =
     scatter (argsort row) (map (\<lambda>k. 6 - k) [0..<NUMCHARS]) (replicate NUMCHARS 0)"

text \<open>
  Lines 104-112: \<^verbatim>\<open>out[y, x] = ranks[prevChar, char]; cnt[out[y, x]] += 1;
  prevChar = char\<close>. The ranks 0..6 are held exactly by the \<^verbatim>\<open>uint16\<close> matrix
  \<^verbatim>\<open>ranks\<close> and by \<^verbatim>\<open>out\<close> (of the frame's dtype), so they are \<open>nat\<close> here; the
  counts wrap.
\<close>

fun remap :: "nat list list \<Rightarrow> nat \<Rightarrow> nat list \<Rightarrow> nat list \<Rightarrow> u16 list \<Rightarrow> (nat list \<times> u16 list) option" where
  "remap ranks prevChar [] out cnt = Some (out, cnt)"
| "remap ranks prevChar (char # cs) out cnt =
     (if prevChar < length ranks \<and> char < length (ranks ! prevChar)
      then let r = ranks ! prevChar ! char
           in if r < length cnt
              then remap ranks char cs (out @ [r]) (cnt[r := cnt ! r + 1])
              else None
      else None)"

text \<open>\<^verbatim>\<open>out = np.zeros_like(frame)\<close>: the ranks, row by row, in the frame's shape.\<close>

fun chop :: "nat list \<Rightarrow> 'a list \<Rightarrow> 'a list list" where
  "chop [] xs = []"
| "chop (n # ns) xs = take n xs # chop ns (drop n xs)"

definition compute_markov :: "nat list list \<Rightarrow> (nat list list \<times> nat list list \<times> u16 list) option" where
  "compute_markov frame =
     (case count_pairs (replicate NUMCHARS (replicate NUMCHARS 0)) 0 (concat frame) of
        None \<Rightarrow> None
      | Some mat \<Rightarrow>
          let ranks = map rank_row mat
          in (case remap ranks 0 (concat frame) [] (replicate NUMCHARS 0) of
                None \<Rightarrow> None
              | Some (out, cnt) \<Rightarrow> Some (chop (map length frame) out, ranks, cnt)))"

text \<open>Shapes used in the proofs: a square matrix, and a matrix of seven rank rows.\<close>

definition square :: "nat \<Rightarrow> u16 list list \<Rightarrow> bool" where
  "square n mat \<longleftrightarrow> length mat = n \<and> (\<forall>row\<in>set mat. length row = n)"

definition ranks_ok :: "nat list list \<Rightarrow> bool" where
  "ranks_ok ranks \<longleftrightarrow> length ranks = 7 \<and> (\<forall>r\<in>set ranks. mset r = mset [0..<7])"

section \<open>encode_matrix\<close>

text \<open>
  \<^verbatim>\<open>list.index(x)\<close>: the position of the first element equal to \<open>x\<close>;
  ValueError (\<open>None\<close>) when there is none.
\<close>

fun py_index :: "'a list \<Rightarrow> 'a \<Rightarrow> nat option" where
  "py_index [] x = None"
| "py_index (y # ys) x = (if y = x then Some 0 else map_option Suc (py_index ys x))"

text \<open>
  Lines 212-217, the loop over \<^verbatim>\<open>rank in range(len(CHARSET))\<close> with the local
  variables \<^verbatim>\<open>encoding\<close>, \<^verbatim>\<open>fact\<close> (here \<open>fct\<close>) and \<^verbatim>\<open>idxs\<close>:
  \<open>symb\<close> is the symbol that holds the rank, \<open>pos\<close> its position among the
  symbols not yet removed. \<^verbatim>\<open>idxs.remove\<close> deletes the first occurrence.
\<close>

fun encode_loop :: "nat list \<Rightarrow> nat list \<Rightarrow> nat \<Rightarrow> nat \<Rightarrow> nat list \<Rightarrow> nat option" where
  "encode_loop row [] encoding fct idxs = Some encoding"
| "encode_loop row (rank # rest) encoding fct idxs =
     (case py_index row rank of
        None \<Rightarrow> None
      | Some symb \<Rightarrow>
          (case py_index idxs symb of
             None \<Rightarrow> None
           | Some pos \<Rightarrow>
               encode_loop row rest (encoding + pos * fct) (fct * length idxs) (remove1 symb idxs)))"

definition encode_row :: "nat list \<Rightarrow> nat option" where
  "encode_row row = encode_loop row [0..<NUMCHARS] 0 1 [0..<NUMCHARS]"

text \<open>Lines 206-223: two bytes per row, the high byte first.\<close>

fun encode_matrix :: "nat list list \<Rightarrow> nat list option" where
  "encode_matrix [] = Some []"
| "encode_matrix (row # rows) =
     (case encode_row row of
        None \<Rightarrow> None
      | Some encoding \<Rightarrow>
          let low_byte = encoding mod 256;
              high_byte = (encoding - low_byte) div 256
          in map_option (\<lambda>out. high_byte # low_byte # out) (encode_matrix rows))"

text \<open>
  The repository has no decoder. To state that the encoding can be inverted, the
  mixed-radix digits are read back here: the digit \<open>code mod length idxs\<close> selects the
  symbol that holds the next rank among the symbols still in the pool.
\<close>

fun decode_loop :: "nat list \<Rightarrow> nat \<Rightarrow> nat list \<Rightarrow> nat list \<Rightarrow> nat list" where
  "decode_loop [] code idxs row = row"
| "decode_loop (rank # rest) code idxs row =
     (let symb = idxs ! (code mod length idxs)
      in decode_loop rest (code div length idxs) (remove1 symb idxs) (row[symb := rank]))"

definition decode_row :: "nat \<Rightarrow> nat list" where
  "decode_row code = decode_loop [0..<NUMCHARS] code [0..<NUMCHARS] (replicate NUMCHARS 0)"

section \<open>The tree and the codewords\<close>

text \<open>The child ids held by a list of tree nodes, in order.\<close>

definition children :: "(nat \<times> nat) list \<Rightarrow> nat list" where
  "children nodes = concat (map (\<lambda>(l, r). [l, r]) nodes)"

text \<open>
  \<open>descends tree k s bs\<close>: following the bits \<open>bs\<close> from node \<open>k\<close> of the tree
  (\<open>0\<close> to the left child, \<open>1\<close> to the right child, always to a node with a
  smaller id) ends at node \<open>s\<close>.
\<close>

inductive descends :: "(nat \<times> nat) list \<Rightarrow> nat \<Rightarrow> nat \<Rightarrow> string \<Rightarrow> bool"
  for tree :: "(nat \<times> nat) list" where
  here: "descends tree k k []"
| left: "k < length tree \<Longrightarrow> fst (tree ! k) < k \<Longrightarrow> descends tree (fst (tree ! k)) s bs \<Longrightarrow>
         descends tree k s (CHR ''0'' # bs)"
| right: "k < length tree \<Longrightarrow> snd (tree ! k) < k \<Longrightarrow> descends tree (snd (tree ! k)) s bs \<Longrightarrow>
          descends tree k s (CHR ''1'' # bs)"

text \<open>
  The second part of the loop invariant: every node of the tree is either the node of an
  entry of the working list or a child of exactly one internal node, and the codeword of
  every member of an entry is the path from the entry's node down to the member's leaf.
\<close>

definition hlink :: "nat \<Rightarrow> 'a hstate \<Rightarrow> bool" where
  "hlink n st \<longleftrightarrow>
     (case st of (codes, sizes, tree) \<Rightarrow>
        mset (map e_node sizes) + mset (children (drop n tree)) = mset [0..<length tree] \<and>
        (\<forall>e\<in>set sizes. \<forall>s\<in>set (e_members e). descends tree (e_node e) s (codes ! s)))"

section \<open>convert_huffman\<close>

text \<open>
  \<^verbatim>\<open>a[y, x]\<close> on a two-dimensional array given as the list of its rows; an index
  out of range raises IndexError (\<open>None\<close>).
\<close>

fun get2 :: "'a list list \<Rightarrow> nat \<Rightarrow> nat \<Rightarrow> 'a option" where
  "get2 a y x = (if y < length a \<and> x < length (a ! y) then Some (a ! y ! x) else None)"

text \<open>
  The cells visited by \<^verbatim>\<open>for y in range(h): for x in range(w)\<close>, in order.
\<close>

definition raster :: "nat \<Rightarrow> nat \<Rightarrow> (nat \<times> nat) list" where
  "raster h w = concat (map (\<lambda>y. map (\<lambda>x. (y, x)) [0..<w]) [0..<h])"

text \<open>
  Lines 177-179: \<^verbatim>\<open>out = out + codes[markov_frame[y, x]]\<close> for every visited cell.
\<close>

fun append_codes :: "nat list list \<Rightarrow> string list \<Rightarrow> (nat \<times> nat) list \<Rightarrow> string \<Rightarrow> string option" where
  "append_codes markov_frame codes [] out = Some out"
| "append_codes markov_frame codes ((y, x) # rest) out =
     (case get2 markov_frame y x of
        None \<Rightarrow> None
      | Some s \<Rightarrow>
          if s < length codes
          then append_codes markov_frame codes rest (out @ codes ! s)
          else None)"

text \<open>
  Lines 189-193: \<^verbatim>\<open>char *= 2; if byte[bit] == '1': char += 1\<close> for \<^verbatim>\<open>bit\<close>
  in \<^verbatim>\<open>range(8)\<close> (the loop variable is \<open>i\<close> here); \<^verbatim>\<open>byte[bit]\<close> on a
  shorter slice raises IndexError.
\<close>

fun pack_bits :: "string \<Rightarrow> nat list \<Rightarrow> nat \<Rightarrow> nat option" where
  "pack_bits byte [] char = Some char"
| "pack_bits byte (i # rest) char =
     (if i < length byte
      then pack_bits byte rest (char * 2 + (if byte ! i = CHR ''1'' then 1 else 0))
      else None)"

text \<open>
  Lines 187-195: one value per slice \<^verbatim>\<open>out[i:i+8]\<close>, \<^verbatim>\<open>i\<close> in
  \<^verbatim>\<open>range(0, len(out), 8)\<close>.
\<close>

function pack_bytes :: "string \<Rightarrow> nat list option" where
  "pack_bytes out =
     (if out = [] then Some []
      else (case pack_bits (take 8 out) [0..<8] 0 of
              None \<Rightarrow> None
            | Some char \<Rightarrow> map_option (\<lambda>compressed. char # compressed) (pack_bytes (drop 8 out))))"
  by pat_completeness auto
termination
  by (relation "measure length") auto

declare pack_bytes.simps [simp del]

text \<open>
  Line 175 reads \<^verbatim>\<open>h, w = frame.shape\<close> from the module-level variable
  \<^verbatim>\<open>frame\<close>, not from the parameter \<^verbatim>\<open>markov_frame\<close>: the shape of that
  global is the first argument here.
\<close>

definition convert_huffman :: "nat \<times> nat \<Rightarrow> nat list list \<Rightarrow> string list \<Rightarrow> nat list option" where
  "convert_huffman frame_shape markov_frame codes =
     (case frame_shape of (h, w) \<Rightarrow>
        (case append_codes markov_frame codes (raster h w) [] of
           None \<Rightarrow> None
         | Some out \<Rightarrow>
             let padding = (8 - length out mod 8) mod 8
             in pack_bytes (out @ replicate padding (CHR ''0''))))"




section \<open>process_frame\<close>

text \<open>
  The samples are \<^verbatim>\<open>float64\<close> in the source; they are read here as exact rationals
  (which cells receive a share of the error does not depend on rounding).
  \<^verbatim>\<open>int(v)\<close> truncates towards zero.
\<close>

definition LEVELS :: "rat list" where
  "LEVELS = [0, 1060 / 1000, 2167 / 1000, 3036 / 1000, 3977 / 1000, 4730 / 1000, 6]"

definition py_int :: "rat \<Rightarrow> int" where
  "py_int v = (if v < 0 then \<lceil>v\<rceil> else \<lfloor>v\<rfloor>)"

text \<open>
  Lines 45-53: the cells that receive a share of \<^verbatim>\<open>err16\<close> from cell \<open>(y, x)\<close>,
  with their weights, in the order of the four guarded additions. The last guard is
  \<^verbatim>\<open>(x - 1) > 0\<close> on Python integers.
\<close>

definition diffusion_targets :: "nat \<Rightarrow> nat \<Rightarrow> ((nat \<times> nat) \<times> nat) list" where
  "diffusion_targets y x =
     (if x + 1 < WIDTH then [((y, x + 1), 7)] else []) @
     (if y + 1 < HEIGHT
      then [((y + 1, x), 5)] @
           (if x + 1 < WIDTH then [((y + 1, x + 1), 1)] else []) @
           (if int x - 1 > 0 then [((y + 1, x - 1), 3)] else [])
      else [])"

text \<open>\<^verbatim>\<open>reduced[y', x'] += w * err16\<close>.\<close>

definition add_share :: "rat \<Rightarrow> (nat \<times> nat) \<times> nat \<Rightarrow> rat list list \<Rightarrow> rat list list" where
  "add_share err16 t reduced =
     (case t of ((y, x), w) \<Rightarrow>
        reduced[y := (reduced ! y)[x := reduced ! y ! x + of_nat w * err16]])"

text \<open>Lines 39-55, the body of the two loops for one cell.\<close>

definition cell_step :: "nat \<times> nat \<Rightarrow> rat list list \<times> int list list \<Rightarrow> rat list list \<times> int list list" where
  "cell_step p st =
     (case (p, st) of ((y, x), (reduced, out)) \<Rightarrow>
        let level = min 6 (max 0 (py_int (reduced ! y ! x)));
            error = reduced ! y ! x - LEVELS ! nat level;
            err16 = error / 16
        in (fold (add_share err16) (diffusion_targets y x) reduced,
            out[y := (out ! y)[x := level]]))"

text \<open>
  Lines 33-57. The frames come from \<^verbatim>\<open>cv2.resize(gray, (WIDTH, HEIGHT))\<close>, so
  \<^verbatim>\<open>scaled\<close> has \<open>HEIGHT\<close> rows of \<open>WIDTH\<close> samples 0..255; another shape is
  outside the model (\<open>None\<close>).
\<close>

definition process_frame :: "nat list list \<Rightarrow> int list list option" where
  "process_frame scaled =
     (if length scaled = HEIGHT \<and> (\<forall>row\<in>set scaled. length row = WIDTH)
      then Some (snd (fold cell_step (raster HEIGHT WIDTH)
                   (map (map (\<lambda>v. of_nat v * 6 / 255)) scaled,
                    replicate HEIGHT (replicate WIDTH 0))))
      else None)"

text \<open>A cell inside the grid bounds.\<close>

definition in_grid :: "nat \<times> nat \<Rightarrow> bool" where
  "in_grid p = (fst p < HEIGHT \<and> snd p < WIDTH)"

section \<open>Lemmas about the merge step\<close>

lemma length_insert_entry [simp]: "length (insert_entry new es) = Suc (length es)"
  by (induction es) auto

lemma length_prepended [simp]: "length (prepended b S codes) = length codes"
  by (simp add: prepended_def)

lemma nth_prepended:
  "i < length codes \<Longrightarrow> prepended b S codes ! i = (if i \<in> S then b # codes ! i else codes ! i)"
  by (simp add: prepended_def)

lemma prepended_empty [simp]: "prepended b {} codes = codes"
  by (simp add: prepended_def map_nth)

lemma prepend_bit_Some:
  "distinct cs \<Longrightarrow> \<forall>c\<in>set cs. c < length codes \<Longrightarrow>
   prepend_bit b cs codes = Some (prepended b (set cs) codes)"
proof (induction cs arbitrary: codes)
  case Nil
  then show ?case by simp
next
  case (Cons c cs)
  let ?codes1 = "codes[c := b # codes ! c]"
  have "prepend_bit b cs ?codes1 = Some (prepended b (set cs) ?codes1)"
    using Cons.prems by (intro Cons.IH) auto
  moreover have "prepended b (set cs) ?codes1 = prepended b (set (c # cs)) codes"
    using Cons.prems by (intro nth_equalityI) (auto simp: nth_prepended nth_list_update)
  ultimately show ?case using Cons.prems by simp
qed

lemma kraft_sum_append [simp]: "kraft_sum (xs @ ys) = kraft_sum xs + kraft_sum ys"
  by (simp add: kraft_sum_def)

lemma kraft_sum_map_Cons:
  "kraft_sum (map (\<lambda>s. b # f s) xs) = kraft_sum (map f xs) / 2"
  by (induction xs) (auto simp: kraft_sum_def add_divide_distrib)

lemma mset_members_insert_entry:
  "mset (concat (map e_members (insert_entry new es))) =
   mset (e_members new) + mset (concat (map e_members es))"
  by (induction es) auto

lemma set_insert_entry [simp]: "set (insert_entry new es) = insert new (set es)"
  by (induction es) auto

lemma last_two:
  "1 < length xs \<Longrightarrow> \<exists>rest l r. xs = rest @ [l, r]"
proof -
  assume "1 < length xs"
  then obtain ys r where 1: "xs = ys @ [r]" "ys \<noteq> []"
    by (cases xs rule: rev_cases) auto
  then obtain rest l where "ys = rest @ [l]"
    by (cases ys rule: rev_cases) auto
  with 1 show ?thesis by auto
qed

lemma merge_step_append:
  "merge_step (codes, rest @ [l, r], tree) =
     (case prepend_bit (CHR ''0'') (e_members l) codes of
        None \<Rightarrow> None
      | Some codes1 \<Rightarrow>
         (case prepend_bit (CHR ''1'') (e_members r) codes1 of
            None \<Rightarrow> None
          | Some codes2 \<Rightarrow>
              Some (codes2,
                    insert_entry (e_count l + e_count r, e_members l @ e_members r, length tree) rest,
                    tree @ [(e_node l, e_node r)])))"
  by (simp add: merge_step_def butlast_append split: option.splits)

lemma tree_ok_append:
  "tree_ok n tree \<Longrightarrow> a < length tree \<Longrightarrow> b < length tree \<Longrightarrow> tree_ok n (tree @ [(a, b)])"
  by (auto simp: tree_ok_def nth_append less_Suc_eq)

lemma hinv_step:
  fixes sizes :: "('a::{linorder,plus}) entry list"
  assumes inv: "hinv n (codes, sizes, tree)" and len: "1 < length sizes"
  shows "\<exists>st'. merge_step (codes, sizes, tree) = Some st' \<and> hinv n st'"
proof -
  obtain rest l r where sz: "sizes = rest @ [l, r]"
    using last_two [OF len] by blast
  let ?L = "e_members l" and ?R = "e_members r"
  let ?M = "concat (map e_members rest)"
  have lc: "length codes = n" and lt: "length tree + length sizes = 2 * n"
    and ms: "mset (?M @ ?L @ ?R) = mset [0..<n]"
    and ents: "\<forall>e\<in>set sizes. e_node e < length tree \<and> entry_ok codes e"
    and tr: "tree_ok n tree"
    using inv by (auto simp: hinv_def sz)
  have dist: "distinct (?M @ ?L @ ?R)"
    using ms by (metis distinct_upt mset_eq_imp_distinct_iff)
  have sub: "set (?M @ ?L @ ?R) = {0..<n}"
    using ms by (metis mset_eq_setD set_upt)
  have dL: "distinct ?L" and dR: "distinct ?R" and LR: "set ?L \<inter> set ?R = {}"
    and disjL: "set ?M \<inter> set ?L = {}" and disjR: "set ?M \<inter> set ?R = {}"
    using dist by auto
  have bL: "\<forall>c\<in>set ?L. c < length codes" and bR: "\<forall>c\<in>set ?R. c < length codes"
    using sub lc by auto
  let ?c1 = "prepended (CHR ''0'') (set ?L) codes"
  let ?c2 = "prepended (CHR ''1'') (set ?R) ?c1"
  have p1: "prepend_bit (CHR ''0'') ?L codes = Some ?c1"
    by (rule prepend_bit_Some [OF dL bL])
  have p2: "prepend_bit (CHR ''1'') ?R ?c1 = Some ?c2"
    by (rule prepend_bit_Some [OF dR]) (use bR in simp)
  let ?new = "(e_count l + e_count r, ?L @ ?R, length tree)"
  let ?st = "(?c2, insert_entry ?new rest, tree @ [(e_node l, e_node r)])"
  have step: "merge_step (codes, sizes, tree) = Some ?st"
    by (simp add: sz merge_step_append p1 p2)
  have c2L: "?c2 ! s = CHR ''0'' # codes ! s" if "s \<in> set ?L" for s
    using that bL LR by (auto simp: nth_prepended)
  have c2R: "?c2 ! s = CHR ''1'' # codes ! s" if "s \<in> set ?R" for s
    using that bR LR by (auto simp: nth_prepended)
  have c2M: "?c2 ! s = codes ! s" if "s \<in> set ?M" for s
  proof -
    have "s < length codes" using that sub lc by auto
    then show ?thesis using that disjL disjR by (auto simp: nth_prepended)
  qed
  have okl: "entry_ok codes l" and okr: "entry_ok codes r"
    using ents by (auto simp: sz)
  have knew: "kraft_sum (map (\<lambda>s. ?c2 ! s) (?L @ ?R)) = 1"
  proof -
    have "map (\<lambda>s. ?c2 ! s) ?L = map (\<lambda>s. CHR ''0'' # codes ! s) ?L"
      using c2L by (intro map_cong) auto
    then have kl: "kraft_sum (map (\<lambda>s. ?c2 ! s) ?L) = kraft_sum (map (\<lambda>s. codes ! s) ?L) / 2"
      by (simp only: kraft_sum_map_Cons)
    have "map (\<lambda>s. ?c2 ! s) ?R = map (\<lambda>s. CHR ''1'' # codes ! s) ?R"
      using c2R by (intro map_cong) auto
    then have kr: "kraft_sum (map (\<lambda>s. ?c2 ! s) ?R) = kraft_sum (map (\<lambda>s. codes ! s) ?R) / 2"
      by (simp only: kraft_sum_map_Cons)
    have "kraft_sum (map (\<lambda>s. codes ! s) ?L) = 1" "kraft_sum (map (\<lambda>s. codes ! s) ?R) = 1"
      using okl okr by (auto simp: entry_ok_def)
    with kl kr show ?thesis
      by simp
  qed
  have pnew: "\<not> prefix (?c2 ! a) (?c2 ! b)"
    if "a \<in> set (?L @ ?R)" "b \<in> set (?L @ ?R)" "a \<noteq> b" for a b
    using that okl okr c2L c2R by (auto simp: entry_ok_def)
  have oknew: "entry_ok ?c2 ?new"
    unfolding entry_ok_def e_members_def using knew pnew
    by (simp add: e_members_def)
  have okrest: "entry_ok ?c2 e" if "e \<in> set rest" for e
  proof -
    have sube: "set (e_members e) \<subseteq> set ?M" using that by auto
    have ok: "entry_ok codes e" using ents that by (auto simp: sz)
    have eq: "?c2 ! a = codes ! a" if "a \<in> set (e_members e)" for a
    proof -
      from that sube have "a \<in> set ?M" by (rule subsetD [rotated])
      then show ?thesis by (rule c2M)
    qed
    then have meq: "map (\<lambda>s. ?c2 ! s) (e_members e) = map (\<lambda>s. codes ! s) (e_members e)"
      by (intro map_cong) auto
    show ?thesis
      using ok eq by (simp add: entry_ok_def meq)
  qed
  have nodes: "e_node l < length tree" "e_node r < length tree"
    using ents by (auto simp: sz)
  have "hinv n ?st"
    unfolding hinv_def
  proof (simp only: prod.case, intro conjI)
    show "length ?c2 = n" using lc by simp
    show "insert_entry ?new rest \<noteq> []" by (cases rest) auto
    show "length (tree @ [(e_node l, e_node r)]) + length (insert_entry ?new rest) = 2 * n"
      using lt by (simp add: sz)
    show "mset (concat (map e_members (insert_entry ?new rest))) = mset [0..<n]"
      using ms by (simp add: mset_members_insert_entry e_members_def ac_simps)
    show "\<forall>e\<in>set (insert_entry ?new rest).
            e_node e < length (tree @ [(e_node l, e_node r)]) \<and> entry_ok ?c2 e"
      using oknew okrest ents by (auto simp: sz e_node_def less_Suc_eq)
    show "tree_ok n (tree @ [(e_node l, e_node r)])"
      using tr nodes by (rule tree_ok_append)
  qed
  with step show ?thesis by blast
qed

section \<open>Lemmas about the loop\<close>

lemma mset_concat_map_cong:
  "mset xs = mset ys \<Longrightarrow> mset (concat (map f xs)) = mset (concat (map f ys))"
proof -
  have "mset (concat (map f zs)) = (\<Sum>x\<in>#mset zs. mset (f x))" for zs :: "'a list"
    by (induction zs) auto
  then show "mset xs = mset ys \<Longrightarrow> ?thesis" by simp
qed

lemma concat_members_seed: "concat (map e_members (seed_sizes cnts)) = [0..<length cnts]"
proof -
  have "concat (map (\<lambda>i. [i]) xs) = xs" for xs :: "nat list"
    by (induction xs) auto
  then show ?thesis
    by (simp add: seed_sizes_def e_members_def comp_def)
qed

lemma kraft_sum_perm:
  "mset xs = mset ys \<Longrightarrow> kraft_sum (map f xs) = kraft_sum (map f ys)"
proof -
  assume eq: "mset xs = mset ys"
  have s: "sum_list (map g zs) = (\<Sum>x\<in>#mset zs. g x)" for g :: "'b \<Rightarrow> rat" and zs
    by (induction zs) auto
  show ?thesis unfolding kraft_sum_def map_map by (simp only: s eq)
qed

lemma hinv_init:
  fixes cnts :: "('a::{linorder,plus}) list"
  assumes "cnts \<noteq> []"
  shows "hinv (length cnts) (huffman_init cnts)"
proof -
  let ?n = "length cnts"
  have 1: "mset (sorted_reverse (seed_sizes cnts)) = mset (seed_sizes cnts)"
    by (simp add: sorted_reverse_def)
  have 2: "mset (concat (map e_members (sorted_reverse (seed_sizes cnts)))) = mset [0..<?n]"
    using mset_concat_map_cong [OF 1, of e_members] by (simp only: concat_members_seed)
  have 3: "set (sorted_reverse (seed_sizes cnts)) = set (seed_sizes cnts)"
    by (simp add: sorted_reverse_def)
  have 4: "e_node e < ?n \<and> entry_ok (replicate ?n []) e" if "e \<in> set (seed_sizes cnts)" for e
    using that by (auto simp: seed_sizes_def e_node_def e_members_def entry_ok_def kraft_sum_def)
  have 5: "length (sorted_reverse (seed_sizes cnts)) = ?n"
    by (simp add: sorted_reverse_def seed_sizes_def)
  have 6: "tree_ok ?n (map (\<lambda>i. (i, i)) [0..<?n])"
    by (simp add: tree_ok_def)
  have 7: "sorted_reverse (seed_sizes cnts) \<noteq> []"
    using 5 assms by (metis length_0_conv)
  show ?thesis
    unfolding hinv_def huffman_init_def using 2 3 4 5 6 7 by simp
qed

lemma hinv_final:
  assumes inv: "hinv n (codes, sizes, tree)" and len: "\<not> 1 < length sizes"
  shows "hfinal n codes tree"
proof -
  from inv have ne: "sizes \<noteq> []" by (simp add: hinv_def)
  with len obtain e where sz: "sizes = [e]"
    by (cases sizes) auto
  have lc: "length codes = n" and lt: "length tree + 1 = 2 * n"
    and ms: "mset (e_members e) = mset [0..<n]"
    and ok: "entry_ok codes e" and tr: "tree_ok n tree"
    using inv by (auto simp: hinv_def sz)
  have "kraft_sum (map (\<lambda>s. codes ! s) (e_members e)) = kraft_sum (map (\<lambda>s. codes ! s) [0..<n])"
    by (rule kraft_sum_perm [OF ms])
  also have "map (\<lambda>s. codes ! s) [0..<n] = codes"
    using map_nth [of codes] lc by simp
  finally have k: "kraft_sum codes = 1"
    using ok by (simp add: entry_ok_def)
  have st: "set (e_members e) = {0..<n}"
    using ms by (metis mset_eq_setD set_upt)
  have pf: "prefix_free codes"
    unfolding prefix_free_def using ok st lc by (simp add: entry_ok_def)
  show ?thesis
    unfolding hfinal_def using lc lt tr k pf by simp
qed

lemma huffman_loop_inv:
  fixes st :: "('a::{linorder,plus}) hstate"
  shows "hinv n st \<Longrightarrow> \<exists>codes tree. huffman_loop st = Some (codes, tree) \<and> hfinal n codes tree"
proof (induction st rule: huffman_loop.induct)
  case (1 codes sizes tree)
  show ?case
  proof (cases "1 < length sizes")
    case True
    from hinv_step [OF "1.prems" True] obtain st' where
      st: "merge_step (codes, sizes, tree) = Some st'" and inv': "hinv n st'"
      by blast
    from "1.IH" [OF True st inv'] show ?thesis
      using True st by simp
  next
    case False
    with hinv_final [OF "1.prems" False] show ?thesis by simp
  qed
qed

lemma compute_huffman_final:
  fixes cnts :: "('a::{linorder,plus}) list"
  assumes "cnts \<noteq> []"
  shows "\<exists>codes tree. compute_huffman cnts = Some (codes, tree) \<and> hfinal (length cnts) codes tree"
  unfolding compute_huffman_def by (rule huffman_loop_inv [OF hinv_init [OF assms]])

lemma hfinal_nonempty:
  assumes "hfinal n codes tree" "2 \<le> n"
  shows "\<forall>c\<in>set codes. c \<noteq> []"
proof
  fix c assume "c \<in> set codes"
  then obtain i where i: "i < length codes" "codes ! i = c"
    by (auto simp: in_set_conv_nth)
  from assms have len: "length codes = n" and pf: "prefix_free codes"
    by (auto simp: hfinal_def)
  have "\<exists>j<n. j \<noteq> i"
  proof (cases "i = 0")
    case True
    with assms(2) have "1 < n \<and> 1 \<noteq> i" by simp
    then show ?thesis by blast
  next
    case False
    with assms(2) have "0 < n \<and> 0 \<noteq> i" by simp
    then show ?thesis by blast
  qed
  then obtain j where j: "j < n" "j \<noteq> i" by blast
  from i j len have "i \<in> {0..<length codes}" "j \<in> {0..<length codes}" "i \<noteq> j"
    by auto
  with pf have "\<not> prefix (codes ! i) (codes ! j)"
    unfolding prefix_free_def by blast
  then show "c \<noteq> []" using i by auto
qed

section \<open>Claims about compute_huffman and encode_tree\<close>

text \<open>
  C1 as stated (five internal nodes, ids 7..11, five tree bytes) fails: seven entries need
  six merges, so \<open>encode_tree\<close> returns six bytes. The all-zero histogram:
\<close>

theorem encode_tree_five_bytes_counterexample:
  "map_option (encode_tree \<circ> snd) (compute_huffman [0, 0, 0, 0, 0, 0, 0 :: nat])
     = Some [16, 50, 84, 118, 152, 186] \<and>
   map_option (length \<circ> encode_tree \<circ> snd) (compute_huffman [0, 0, 0, 0, 0, 0, 0 :: nat])
     \<noteq> Some 5"
  by code_simp

text \<open>
  C1, amended: for every 7-entry histogram the tree has 13 nodes, the internal nodes are
  those with ids 7..12, \<open>encode_tree\<close> returns exactly 6 bytes, and the byte of
  internal node \<open>7 + k\<close> is \<open>left * 16 + right\<close> with both child ids below the
  node's own id, hence below 16: the high nibble is the left child, the low nibble the
  right child.
\<close>

theorem encode_tree_six_bytes:
  fixes cnts :: "('a::{linorder,plus}) list"
  assumes "length cnts = 7"
  shows "\<exists>codes tree. compute_huffman cnts = Some (codes, tree) \<and>
           length tree = 13 \<and> length (encode_tree tree) = 6 \<and>
           (\<forall>k\<in>{0..<6}.
              fst (tree ! (7 + k)) < 7 + k \<and> snd (tree ! (7 + k)) < 7 + k \<and>
              encode_tree tree ! k = fst (tree ! (7 + k)) * 16 + snd (tree ! (7 + k)) \<and>
              encode_tree tree ! k < 256 \<and>
              encode_tree tree ! k div 16 = fst (tree ! (7 + k)) \<and>
              encode_tree tree ! k div 16 < 16 \<and>
              encode_tree tree ! k mod 16 = snd (tree ! (7 + k)))"
proof -
  from assms have ne: "cnts \<noteq> []" by auto
  from compute_huffman_final [OF ne] obtain codes tree where
    r: "compute_huffman cnts = Some (codes, tree)" and f: "hfinal (length cnts) codes tree"
    by blast
  from f assms have lt: "length tree = 13" and tr: "tree_ok 7 tree"
    by (auto simp: hfinal_def)
  have len: "length (encode_tree tree) = 6"
    by (simp add: encode_tree_def NUMCHARS_def lt)
  have node: "fst (tree ! (7 + k)) < 7 + k \<and> snd (tree ! (7 + k)) < 7 + k" if "k < 6" for k
    using tr that lt unfolding tree_ok_def
    by (auto dest!: spec [of _ "7 + k"])
  have byte: "encode_tree tree ! k = fst (tree ! (7 + k)) * 16 + snd (tree ! (7 + k))"
    if "k < 6" for k
    using that lt by (simp add: encode_tree_def NUMCHARS_def case_prod_beta)
  have all: "fst (tree ! (7 + k)) < 7 + k \<and> snd (tree ! (7 + k)) < 7 + k \<and>
        encode_tree tree ! k = fst (tree ! (7 + k)) * 16 + snd (tree ! (7 + k)) \<and>
        encode_tree tree ! k < 256 \<and>
        encode_tree tree ! k div 16 = fst (tree ! (7 + k)) \<and>
        encode_tree tree ! k div 16 < 16 \<and>
        encode_tree tree ! k mod 16 = snd (tree ! (7 + k))" if "k < 6" for k
  proof -
    define l where "l = fst (tree ! (7 + k))"
    define r where "r = snd (tree ! (7 + k))"
    from node [OF that] that have lr: "l < 7 + k" "r < 7 + k" "l < 16" "r < 16"
      by (auto simp: l_def r_def)
    have b: "encode_tree tree ! k = l * 16 + r"
      using byte [OF that] by (simp add: l_def r_def)
    have "l * 16 + r < 256" "(l * 16 + r) div 16 = l" "(l * 16 + r) mod 16 = r"
      using lr by auto
    with b lr show ?thesis unfolding l_def [symmetric] r_def [symmetric] by simp
  qed
  have "\<forall>k\<in>{0..<6}.
          fst (tree ! (7 + k)) < 7 + k \<and> snd (tree ! (7 + k)) < 7 + k \<and>
          encode_tree tree ! k = fst (tree ! (7 + k)) * 16 + snd (tree ! (7 + k)) \<and>
          encode_tree tree ! k < 256 \<and>
          encode_tree tree ! k div 16 = fst (tree ! (7 + k)) \<and>
          encode_tree tree ! k div 16 < 16 \<and>
          encode_tree tree ! k mod 16 = snd (tree ! (7 + k))"
  proof (intro ballI)
    fix k :: nat
    assume "k \<in> {0..<6}"
    then have "k < 6" by simp
    then show "fst (tree ! (7 + k)) < 7 + k \<and> snd (tree ! (7 + k)) < 7 + k \<and>
          encode_tree tree ! k = fst (tree ! (7 + k)) * 16 + snd (tree ! (7 + k)) \<and>
          encode_tree tree ! k < 256 \<and>
          encode_tree tree ! k div 16 = fst (tree ! (7 + k)) \<and>
          encode_tree tree ! k div 16 < 16 \<and>
          encode_tree tree ! k mod 16 = snd (tree ! (7 + k))"
      by (rule all)
  qed
  with r lt len show ?thesis by blast
qed

text \<open>A histogram with a single nonzero entry.\<close>

theorem encode_tree_six_bytes_witness:
  "length [4, 0, 0, 0, 0, 0, 0 :: nat] = 7 \<and>
   compute_huffman [4, 0, 0, 0, 0, 0, 0 :: nat] =
     Some ([''0'', ''1011'', ''1010'', ''1001'', ''1000'', ''111'', ''110''],
           [(0, 0), (1, 1), (2, 2), (3, 3), (4, 4), (5, 5), (6, 6),
            (2, 1), (4, 3), (6, 5), (8, 7), (10, 9), (0, 11)]) \<and>
   encode_tree [(0, 0), (1, 1), (2, 2), (3, 3), (4, 4), (5, 5), (6, 6),
            (2, 1), (4, 3), (6, 5), (8, 7), (10, 9), (0, 11)] = [33, 67, 101, 135, 169, 11]"
proof -
  have "compute_huffman [4, 0, 0, 0, 0, 0, 0 :: nat] =
     Some ([''0'', ''1011'', ''1010'', ''1001'', ''1000'', ''111'', ''110''],
           [(0, 0), (1, 1), (2, 2), (3, 3), (4, 4), (5, 5), (6, 6),
            (2, 1), (4, 3), (6, 5), (8, 7), (10, 9), (0, 11)])"
    by code_simp
  moreover have "encode_tree [(0, 0), (1, 1), (2, 2), (3, 3), (4, 4), (5, 5), (6, 6),
            (2, 1), (4, 3), (6, 5), (8, 7), (10, 9), (0, 11)] = [33, 67, 101, 135, 169, 11]"
    by code_simp
  ultimately show ?thesis
    using encode_tree_six_bytes [of "[4, 0, 0, 0, 0, 0, 0 :: nat]"] by simp
qed

section \<open>The working list: order and merge steps\<close>

lemma sorted_insert_entry:
  "sorted_wrt (\<lambda>a b. e_count b \<le> e_count a) es \<Longrightarrow>
   sorted_wrt (\<lambda>a b. e_count b \<le> e_count a) (insert_entry new es)"
proof (induction es)
  case Nil
  then show ?case by simp
next
  case (Cons e es)
  show ?case
  proof (cases "e_count e \<le> e_count new")
    case True
    then have "\<forall>x\<in>set (e # es). e_count x \<le> e_count new"
      using Cons.prems by auto
    with Cons.prems True show ?thesis by simp
  next
    case False
    then have "e_count new \<le> e_count e" by simp
    with Cons False show ?thesis by auto
  qed
qed

lemma seed_less_iff:
  fixes cnts :: "('a::linorder) list"
  shows "a \<in> set (seed_sizes cnts) \<Longrightarrow> b \<in> set (seed_sizes cnts) \<Longrightarrow>
   b < a \<longleftrightarrow> e_count b < e_count a \<or> (e_count b = e_count a \<and> e_node b < e_node a)"
  by (auto simp: seed_sizes_def e_count_def e_node_def less_prod_def less_eq_prod_def)

lemma distinct_seed_sizes: "distinct (seed_sizes cnts)"
  by (auto simp: seed_sizes_def distinct_map inj_on_def)

text \<open>
  C3, amended: the initial working list is sorted descending by count, and symbols with
  equal counts appear in descending symbol-id order: \<^verbatim>\<open>sorted(..., reverse=True)\<close>
  compares the whole tuples \<^verbatim>\<open>(count, [i], i)\<close>, which are pairwise different, so
  the order of seeding never decides. The list is a rearrangement of the seeded entries.
\<close>

theorem initial_working_list_order:
  fixes cnts :: "('a::linorder) list"
  shows "sorted_wrt (\<lambda>a b. e_count b < e_count a \<or> (e_count b = e_count a \<and> e_node b < e_node a))
           (sorted_reverse (seed_sizes cnts)) \<and>
         mset (sorted_reverse (seed_sizes cnts)) = mset (seed_sizes cnts)"
proof -
  let ?xs = "seed_sizes cnts"
  have "sorted (sort ?xs)" "distinct (sort ?xs)"
    using distinct_seed_sizes [of cnts] by simp_all
  then have "sorted_wrt (<) (sort ?xs)"
    by (simp add: strict_sorted_iff)
  then have "sorted_wrt (\<lambda>a b. b < a) (rev (sort ?xs))"
    by (simp add: sorted_wrt_rev)
  then have "sorted_wrt (\<lambda>a b. e_count b < e_count a \<or> (e_count b = e_count a \<and> e_node b < e_node a))
           (rev (sort ?xs))"
  proof (rule sorted_wrt_mono_rel [rotated])
    fix a b assume "a \<in> set (rev (sort ?xs))" "b \<in> set (rev (sort ?xs))" "b < a"
    then show "e_count b < e_count a \<or> (e_count b = e_count a \<and> e_node b < e_node a)"
      using seed_less_iff [of a cnts b] by simp
  qed
  then show ?thesis by (simp add: sorted_reverse_def)
qed

text \<open>
  C3 as stated (equal counts in ascending symbol-id order) fails: in the histogram below
  the symbols 1, 2 and 5 all have count 1 and come out as 5, 2, 1; the symbols 3 and 6
  have count 0 and come out as 6, 3.
\<close>

theorem ties_ascending_counterexample:
  "map e_node (sorted_reverse (seed_sizes [3, 1, 1, 0, 2, 1, 0 :: nat])) = [0, 4, 5, 2, 1, 6, 3] \<and>
   map e_count (sorted_reverse (seed_sizes [3, 1, 1, 0, 2, 1, 0 :: nat])) = [3, 2, 1, 1, 1, 0, 0]"
  by code_simp

lemma sorted_reverse_seed:
  fixes cnts :: "('a::linorder) list"
  shows "sorted_wrt (\<lambda>a b. e_count b \<le> e_count a) (sorted_reverse (seed_sizes cnts))"
proof -
  have "sorted_wrt (\<lambda>a b. b \<le> a) (rev (sort (seed_sizes cnts)))"
    by (simp add: sorted_wrt_rev)
  then show ?thesis
    unfolding sorted_reverse_def
    by (rule sorted_wrt_mono_rel [rotated]) (auto simp: e_count_def less_eq_prod_def)
qed

lemma merge_step_result:
  fixes rest :: "('a::{linorder,plus}) entry list"
  assumes inv: "hinv n (codes, rest @ [l, r], tree)"
  shows "merge_step (codes, rest @ [l, r], tree) =
           Some (prepended (CHR ''1'') (set (e_members r))
                   (prepended (CHR ''0'') (set (e_members l)) codes),
                 insert_entry (e_count l + e_count r, e_members l @ e_members r, length tree) rest,
                 tree @ [(e_node l, e_node r)])"
    and "set (e_members l) \<inter> set (e_members r) = {}"
    and "\<forall>c\<in>set (e_members l) \<union> set (e_members r). c < length codes"
proof -
  let ?L = "e_members l" and ?R = "e_members r"
  let ?M = "concat (map e_members rest)"
  have lc: "length codes = n" and ms: "mset (?M @ ?L @ ?R) = mset [0..<n]"
    using inv by (auto simp: hinv_def)
  have dist: "distinct (?M @ ?L @ ?R)"
    using ms by (metis distinct_upt mset_eq_imp_distinct_iff)
  have sub: "set (?M @ ?L @ ?R) = {0..<n}"
    using ms by (metis mset_eq_setD set_upt)
  have dL: "distinct ?L" and dR: "distinct ?R" using dist by auto
  show LR: "set ?L \<inter> set ?R = {}" using dist by auto
  show bLR: "\<forall>c\<in>set ?L \<union> set ?R. c < length codes" using sub lc by auto
  have p1: "prepend_bit (CHR ''0'') ?L codes = Some (prepended (CHR ''0'') (set ?L) codes)"
    by (rule prepend_bit_Some [OF dL]) (use bLR in simp)
  have p2: "prepend_bit (CHR ''1'') ?R (prepended (CHR ''0'') (set ?L) codes) =
              Some (prepended (CHR ''1'') (set ?R) (prepended (CHR ''0'') (set ?L) codes))"
    by (rule prepend_bit_Some [OF dR]) (use bLR in simp)
  show "merge_step (codes, rest @ [l, r], tree) =
           Some (prepended (CHR ''1'') (set ?R) (prepended (CHR ''0'') (set ?L) codes),
                 insert_entry (e_count l + e_count r, ?L @ ?R, length tree) rest,
                 tree @ [(e_node l, e_node r)])"
    by (simp add: merge_step_append p1 p2)
qed

lemma loop_state_inv:
  fixes cnts :: "('a::{linorder,plus}) list"
  assumes ne: "cnts \<noteq> []"
  shows "loop_state cnts k = Some (codes, sizes, tree) \<Longrightarrow>
         hinv (length cnts) (codes, sizes, tree) \<and>
         sorted_wrt (\<lambda>a b. e_count b \<le> e_count a) sizes \<and>
         huffman_loop (codes, sizes, tree) = compute_huffman cnts"
proof (induction k arbitrary: codes sizes tree)
  case 0
  then have st: "huffman_init cnts = (codes, sizes, tree)" by simp
  then have "sizes = sorted_reverse (seed_sizes cnts)" by (simp add: huffman_init_def)
  with hinv_init [OF ne] sorted_reverse_seed [of cnts] st show ?case
    by (simp add: compute_huffman_def)
next
  case (Suc k)
  from Suc.prems obtain c0 s0 t0 where
    prev: "loop_state cnts k = Some (c0, s0, t0)" and long: "1 < length s0"
    and step: "merge_step (c0, s0, t0) = Some (codes, sizes, tree)"
    by (auto split: option.splits if_splits)
  from Suc.IH [OF prev] have inv0: "hinv (length cnts) (c0, s0, t0)"
    and so0: "sorted_wrt (\<lambda>a b. e_count b \<le> e_count a) s0"
    and lp0: "huffman_loop (c0, s0, t0) = compute_huffman cnts"
    by auto
  from hinv_step [OF inv0 long] step have inv: "hinv (length cnts) (codes, sizes, tree)"
    by auto
  obtain rest l r where sz: "s0 = rest @ [l, r]"
    using last_two [OF long] by blast
  from merge_step_result(1) [OF inv0 [unfolded sz]] step
  have "sizes = insert_entry (e_count l + e_count r, e_members l @ e_members r, length t0) rest"
    by (simp add: sz)
  moreover have "sorted_wrt (\<lambda>a b. e_count b \<le> e_count a) rest"
    using so0 by (simp add: sz sorted_wrt_append)
  ultimately have so: "sorted_wrt (\<lambda>a b. e_count b \<le> e_count a) sizes"
    by (simp add: sorted_insert_entry)
  have "huffman_loop (c0, s0, t0) = huffman_loop (codes, sizes, tree)"
    using long step by simp
  with lp0 inv so show ?case by simp
qed

text \<open>The histogram of the counterexample: the list is as the theorem says.\<close>

theorem initial_working_list_order_witness:
  "sorted_wrt (\<lambda>a b. e_count b < e_count a \<or> (e_count b = e_count a \<and> e_node b < e_node a))
     (sorted_reverse (seed_sizes [3, 1, 1, 0, 2, 1, 0 :: nat])) \<and>
   mset (sorted_reverse (seed_sizes [3, 1, 1, 0, 2, 1, 0 :: nat])) =
     mset (seed_sizes [3, 1, 1, 0, 2, 1, 0 :: nat])"
  by (rule initial_working_list_order [of "[3, 1, 1, 0, 2, 1, 0 :: nat]"])

text \<open>
  C2, amended: at the head of every iteration of the loop of \<open>compute_huffman\<close> the
  working list ends in two entries \<open>left, right\<close> whose counts are the smallest
  (\<open>right\<close>, the last one, is removed first and \<open>left\<close> second). The new tree node
  has the second-removed entry \<open>left\<close> as its left child and the first-removed entry
  \<open>right\<close> as its right child; the members of \<open>left\<close> get \<open>0\<close> prepended to
  their codewords, the members of \<open>right\<close> get \<open>1\<close>, and the merged entry is put
  back by the linear scan.
\<close>

theorem merge_step_orientation:
  fixes cnts :: "('a::{linorder,plus}) list"
  assumes ne: "cnts \<noteq> []"
    and st: "loop_state cnts k = Some (codes, sizes, tree)"
    and long: "1 < length sizes"
  shows "\<exists>rest left right codes'.
           sizes = rest @ [left, right] \<and>
           (\<forall>e\<in>set rest. e_count left \<le> e_count e) \<and> e_count right \<le> e_count left \<and>
           loop_state cnts (Suc k) =
             Some (codes',
                   insert_entry (e_count left + e_count right,
                                 e_members left @ e_members right, length tree) rest,
                   tree @ [(e_node left, e_node right)]) \<and>
           (\<forall>c\<in>set (e_members left). codes' ! c = CHR ''0'' # codes ! c) \<and>
           (\<forall>c\<in>set (e_members right). codes' ! c = CHR ''1'' # codes ! c) \<and>
           huffman_loop (codes, sizes, tree) = compute_huffman cnts"
proof -
  from loop_state_inv [OF ne st] have inv: "hinv (length cnts) (codes, sizes, tree)"
    and so: "sorted_wrt (\<lambda>a b. e_count b \<le> e_count a) sizes"
    and lp: "huffman_loop (codes, sizes, tree) = compute_huffman cnts"
    by auto
  obtain rest l r where sz: "sizes = rest @ [l, r]"
    using last_two [OF long] by blast
  let ?L = "e_members l" and ?R = "e_members r"
  let ?codes' = "prepended (CHR ''1'') (set ?R) (prepended (CHR ''0'') (set ?L) codes)"
  note res = merge_step_result [OF inv [unfolded sz]]
  have order: "(\<forall>e\<in>set rest. e_count l \<le> e_count e) \<and> e_count r \<le> e_count l"
    using so by (auto simp: sz sorted_wrt_append)
  have next_state: "loop_state cnts (Suc k) =
      Some (?codes', insert_entry (e_count l + e_count r, ?L @ ?R, length tree) rest,
            tree @ [(e_node l, e_node r)])"
    using st long res(1) by (simp add: sz)
  have cl: "\<forall>c\<in>set ?L. ?codes' ! c = CHR ''0'' # codes ! c"
    using res(2,3) by (auto simp: nth_prepended)
  have cr: "\<forall>c\<in>set ?R. ?codes' ! c = CHR ''1'' # codes ! c"
    using res(2,3) by (auto simp: nth_prepended)
  from sz order next_state cl cr lp show ?thesis by blast
qed

text \<open>
  C2 as stated (the left child is the first-removed entry) fails. In the first iteration
  for the histogram below \<^verbatim>\<open>sizes.pop()\<close> removes the entry of symbol 6 first and
  that of symbol 5 second; the new node is \<open>(5, 6)\<close>, and symbol 6 gets the bit
  \<open>1\<close>, symbol 5 the bit \<open>0\<close>.
\<close>

theorem first_removed_is_right_child_counterexample:
  "last (fst (snd (huffman_init [6, 5, 4, 3, 2, 1, 0 :: nat]))) = (0, [6], 6) \<and>
   last (butlast (fst (snd (huffman_init [6, 5, 4, 3, 2, 1, 0 :: nat])))) = (1, [5], 5) \<and>
   merge_step (huffman_init [6, 5, 4, 3, 2, 1, 0 :: nat]) =
     Some ([[], [], [], [], [], ''0'', ''1''],
           [(6, [0], 0), (5, [1], 1), (4, [2], 2), (3, [3], 3), (2, [4], 4), (1, [5, 6], 7)],
           [(0, 0), (1, 1), (2, 2), (3, 3), (4, 4), (5, 5), (6, 6), (5, 6)])"
  by code_simp

text \<open>The second iteration for the same histogram.\<close>

theorem merge_step_orientation_witness:
  "[6, 5, 4, 3, 2, 1, 0 :: nat] \<noteq> [] \<and>
   loop_state [6, 5, 4, 3, 2, 1, 0 :: nat] 1 =
     Some ([[], [], [], [], [], ''0'', ''1''],
           [(6, [0], 0), (5, [1], 1), (4, [2], 2), (3, [3], 3), (2, [4], 4), (1, [5, 6], 7)],
           [(0, 0), (1, 1), (2, 2), (3, 3), (4, 4), (5, 5), (6, 6), (5, 6)]) \<and>
   1 < length [(6 :: nat, [0 :: nat], 0 :: nat), (5, [1], 1), (4, [2], 2), (3, [3], 3),
               (2, [4], 4), (1, [5, 6], 7)] \<and>
   loop_state [6, 5, 4, 3, 2, 1, 0 :: nat] 2 =
     Some ([[], [], [], [], ''0'', ''10'', ''11''],
           [(6, [0], 0), (5, [1], 1), (4, [2], 2), (3, [4, 5, 6], 8), (3, [3], 3)],
           [(0, 0), (1, 1), (2, 2), (3, 3), (4, 4), (5, 5), (6, 6), (5, 6), (4, 7)]) \<and>
   huffman_loop ([[], [], [], [], [], ''0'', ''1''],
           [(6 :: nat, [0], 0), (5, [1], 1), (4, [2], 2), (3, [3], 3), (2, [4], 4), (1, [5, 6], 7)],
           [(0, 0), (1, 1), (2, 2), (3, 3), (4, 4), (5, 5), (6, 6), (5, 6)])
     = compute_huffman [6, 5, 4, 3, 2, 1, 0 :: nat]"
proof -
  have s1: "loop_state [6, 5, 4, 3, 2, 1, 0 :: nat] 1 =
     Some ([[], [], [], [], [], ''0'', ''1''],
           [(6, [0], 0), (5, [1], 1), (4, [2], 2), (3, [3], 3), (2, [4], 4), (1, [5, 6], 7)],
           [(0, 0), (1, 1), (2, 2), (3, 3), (4, 4), (5, 5), (6, 6), (5, 6)])"
    by code_simp
  have s2: "loop_state [6, 5, 4, 3, 2, 1, 0 :: nat] 2 =
     Some ([[], [], [], [], ''0'', ''10'', ''11''],
           [(6, [0], 0), (5, [1], 1), (4, [2], 2), (3, [4, 5, 6], 8), (3, [3], 3)],
           [(0, 0), (1, 1), (2, 2), (3, 3), (4, 4), (5, 5), (6, 6), (5, 6), (4, 7)])"
    by code_simp
  have ne: "[6, 5, 4, 3, 2, 1, 0 :: nat] \<noteq> []" by simp
  have long: "1 < length [(6 :: nat, [0 :: nat], 0 :: nat), (5, [1], 1), (4, [2], 2), (3, [3], 3),
               (2, [4], 4), (1, [5, 6], 7)]"
    by simp
  from merge_step_orientation [OF ne s1 long]
  have "huffman_loop ([[], [], [], [], [], ''0'', ''1''],
           [(6 :: nat, [0], 0), (5, [1], 1), (4, [2], 2), (3, [3], 3), (2, [4], 4), (1, [5, 6], 7)],
           [(0, 0), (1, 1), (2, 2), (3, 3), (4, 4), (5, 5), (6, 6), (5, 6)])
     = compute_huffman [6, 5, 4, 3, 2, 1, 0 :: nat]"
    by blast
  with ne s1 long s2 show ?thesis by (intro conjI)
qed

section \<open>Kraft sum and prefix-freeness of the codeword table\<close>

lemma kraft_nonzero_all:
  assumes "\<forall>i<length cs. cnts ! i \<noteq> 0"
  shows "kraft_nonzero cnts cs = kraft_sum cs"
proof -
  have "filter (\<lambda>i. cnts ! i \<noteq> 0) [0..<length cs] = [0..<length cs]"
    using assms by (simp add: filter_id_conv)
  then have "kraft_nonzero cnts cs = sum_list (map (\<lambda>i. 1 / 2 ^ length (cs ! i)) [0..<length cs])"
    by (simp add: kraft_nonzero_def)
  also have "map (\<lambda>i. 1 / 2 ^ length (cs ! i)) [0..<length cs]
             = map (\<lambda>c. 1 / 2 ^ length c) (map (\<lambda>i. cs ! i) [0..<length cs])"
    by simp
  also have "map (\<lambda>i. cs ! i) [0..<length cs] = cs"
    by (rule map_nth)
  finally show ?thesis by (simp add: kraft_sum_def)
qed

text \<open>
  C8, amended: for every 7-entry histogram the codeword table of \<open>compute_huffman\<close>
  has seven codewords, is prefix-free and its Kraft sum over all seven symbols is exactly
  1; the sum over the symbols with nonzero count is 1 when no count is zero.
\<close>

theorem compute_huffman_kraft:
  fixes cnts :: "('a::{linorder,plus,zero}) list"
  assumes "length cnts = 7"
  shows "\<exists>codes tree. compute_huffman cnts = Some (codes, tree) \<and> length codes = 7 \<and>
           prefix_free codes \<and> kraft_sum codes = 1 \<and>
           ((\<forall>c\<in>set cnts. c \<noteq> 0) \<longrightarrow> kraft_nonzero cnts codes = 1)"
proof -
  from assms have ne: "cnts \<noteq> []" by auto
  from compute_huffman_final [OF ne] obtain codes tree where
    r: "compute_huffman cnts = Some (codes, tree)" and f: "hfinal (length cnts) codes tree"
    by blast
  from f have lc: "length codes = length cnts" and pf: "prefix_free codes"
    and k: "kraft_sum codes = 1"
    by (auto simp: hfinal_def)
  have "kraft_nonzero cnts codes = 1" if "\<forall>c\<in>set cnts. c \<noteq> 0"
  proof -
    from that lc have "\<forall>i<length codes. cnts ! i \<noteq> 0" by simp
    from kraft_nonzero_all [OF this] k show ?thesis by simp
  qed
  moreover from lc assms have "length codes = 7" by simp
  ultimately show ?thesis using r pf k by blast
qed

text \<open>
  C8 as stated (the sum over the symbols with nonzero count is 1) fails as soon as a count
  is zero, since zero-count symbols take codewords too. With all 4 pixels of a 2x2 frame
  on rank 0, the only symbol with a nonzero count has the codeword \<open>0\<close> and the sum
  is 1/2.
\<close>

theorem kraft_nonzero_counterexample:
  "compute_huffman [4, 0, 0, 0, 0, 0, 0 :: nat] =
     Some ([''0'', ''1011'', ''1010'', ''1001'', ''1000'', ''111'', ''110''],
           [(0, 0), (1, 1), (2, 2), (3, 3), (4, 4), (5, 5), (6, 6),
            (2, 1), (4, 3), (6, 5), (8, 7), (10, 9), (0, 11)]) \<and>
   kraft_nonzero [4, 0, 0, 0, 0, 0, 0 :: nat]
     [''0'', ''1011'', ''1010'', ''1001'', ''1000'', ''111'', ''110''] = 1 / 2"
  by code_simp

text \<open>A histogram of an 80x22 frame without a zero count.\<close>

theorem compute_huffman_kraft_witness:
  "length [1, 1, 1, 1, 1, 1, 1754 :: 16 word] = 7 \<and>
   0 \<notin> set [1, 1, 1, 1, 1, 1, 1754 :: 16 word] \<and>
   (\<exists>codes tree. compute_huffman [1, 1, 1, 1, 1, 1, 1754 :: 16 word] = Some (codes, tree) \<and>
      length codes = 7 \<and> prefix_free codes \<and> kraft_sum codes = 1 \<and>
      kraft_nonzero [1, 1, 1, 1, 1, 1, 1754 :: 16 word] codes = 1)"
  using compute_huffman_kraft [of "[1, 1, 1, 1, 1, 1, 1754 :: 16 word]"] by simp

section \<open>Lemmas about compute_markov\<close>

lemma square_update:
  "square n mat \<Longrightarrow> p < n \<Longrightarrow> square n (mat[p := (mat ! p)[c := v]])"
  by (auto simp: square_def dest!: set_update_subset_insert [THEN subsetD])

lemma count_pairs_Some:
  "square n mat \<Longrightarrow> p < n \<Longrightarrow> \<forall>c\<in>set cs. c < n \<Longrightarrow>
   \<exists>mat'. count_pairs mat p cs = Some mat' \<and> square n mat'"
proof (induction cs arbitrary: mat p)
  case Nil
  then show ?case by simp
next
  case (Cons c cs)
  let ?mat = "mat[p := (mat ! p)[c := mat ! p ! c + 1]]"
  have sq: "square n ?mat" using Cons.prems by (intro square_update) auto
  have "c < n" using Cons.prems by simp
  from Cons.IH [OF sq this] Cons.prems obtain mat' where
    "count_pairs ?mat c cs = Some mat'" "square n mat'" by auto
  moreover have "p < length mat \<and> c < length (mat ! p)"
    using Cons.prems by (auto simp: square_def)
  ultimately show ?case by simp
qed

lemma length_scatter [simp]: "length (scatter js vs base) = length base"
  by (induction js vs base rule: scatter.induct) auto

lemma scatter_other:
  "j \<notin> set js \<Longrightarrow> scatter js vs base ! j = base ! j"
  by (induction js vs base rule: scatter.induct) auto

lemma scatter_nth:
  "distinct js \<Longrightarrow> length js = length vs \<Longrightarrow> \<forall>j\<in>set js. j < length base \<Longrightarrow>
   k < length js \<Longrightarrow> scatter js vs base ! (js ! k) = vs ! k"
proof (induction js vs base arbitrary: k rule: scatter.induct)
  case (1 j js v vs base)
  show ?case
  proof (cases k)
    case 0
    then show ?thesis using 1 by (simp add: scatter_other)
  next
    case (Suc k')
    then show ?thesis using 1 by simp
  qed
qed auto

lemma scatter_mset:
  assumes d: "distinct js" and l: "length js = length vs"
    and s: "set js = {0..<length base}"
  shows "mset (scatter js vs base) = mset vs"
proof -
  let ?r = "scatter js vs base"
  have b: "\<forall>j\<in>set js. j < length base" using s by simp
  have "map (\<lambda>j. ?r ! j) js = vs"
  proof (rule nth_equalityI)
    show "length (map (\<lambda>j. ?r ! j) js) = length vs" using l by simp
  next
    fix k assume "k < length (map (\<lambda>j. ?r ! j) js)"
    then have "k < length js" by simp
    then show "map (\<lambda>j. ?r ! j) js ! k = vs ! k"
      using scatter_nth [OF d l b] by simp
  qed
  then have "mset vs = image_mset (\<lambda>j. ?r ! j) (mset js)"
    by (metis mset_map)
  also have "mset js = mset [0..<length base]"
    using d s by (metis distinct_upt set_eq_iff_mset_eq_distinct set_upt)
  also have "image_mset (\<lambda>j. ?r ! j) (mset [0..<length base]) = mset (map (\<lambda>j. ?r ! j) [0..<length ?r])"
    by simp
  also have "map (\<lambda>j. ?r ! j) [0..<length ?r] = ?r"
    by (rule map_nth)
  finally show ?thesis by simp
qed

lemma rank_row_perm:
  assumes "length row = 7"
  shows "mset (rank_row row) = mset [0..<7]"
proof -
  have m: "mset (argsort row) = mset [0..<7]"
    using assms by (simp add: argsort_def)
  have d: "distinct (argsort row)"
    using m by (metis distinct_upt mset_eq_imp_distinct_iff)
  have s: "set (argsort row) = {0..<7}"
    using m by (metis mset_eq_setD set_upt)
  have l: "length (argsort row) = 7"
    using assms by (simp add: argsort_def)
  have "mset (rank_row row) = mset (map (\<lambda>k. 6 - k) [0..<7])"
    unfolding rank_row_def NUMCHARS_def
    by (rule scatter_mset [OF d]) (use l s in simp_all)
  also have "map (\<lambda>k. 6 - k) [0..<7] = [6, 5, 4, 3, 2, 1, 0 :: nat]"
    by code_simp
  also have "mset [6, 5, 4, 3, 2, 1, 0 :: nat] = mset [0..<7]"
    by code_simp
  finally show ?thesis .
qed

lemma ranks_ok_nth:
  assumes "ranks_ok ranks" "p < 7" "c < 7"
  shows "c < length (ranks ! p)" "ranks ! p ! c < 7"
proof -
  from assms have m: "mset (ranks ! p) = mset [0..<7]"
    by (simp add: ranks_ok_def)
  then have "length (ranks ! p) = 7"
    by (metis length_upt mset_eq_length diff_zero)
  with assms show 1: "c < length (ranks ! p)" by simp
  from m have "set (ranks ! p) = {0..<7}" by (metis mset_eq_setD set_upt)
  with 1 show "ranks ! p ! c < 7" by (metis atLeastLessThan_iff nth_mem)
qed

lemma unat_sum_incr:
  fixes cnt :: "u16 list"
  assumes r: "r < length cnt" and b: "sum_list (map unat cnt) < 65535"
  shows "sum_list (map unat (cnt[r := cnt ! r + 1])) = Suc (sum_list (map unat cnt))"
proof -
  have le: "unat (cnt ! r) \<le> sum_list (map unat cnt)"
    using elem_le_sum_list [of r "map unat cnt"] r by simp
  with b have "unat (cnt ! r) + 1 < 65536" by simp
  then have u: "unat (cnt ! r + 1) = unat (cnt ! r) + 1"
    by (simp add: unat_word_ariths)
  have "sum_list (map unat (cnt[r := cnt ! r + 1])) =
        sum_list ((map unat cnt)[r := unat (cnt ! r + 1)])"
    by (simp add: map_update)
  also have "\<dots> = sum_list (map unat cnt) + unat (cnt ! r + 1) - (map unat cnt) ! r"
    using r by (simp add: sum_list_update)
  finally show ?thesis using u r le by simp
qed

lemma remap_Some:
  assumes ok: "ranks_ok ranks"
  shows "p < 7 \<Longrightarrow> \<forall>c\<in>set cs. c < 7 \<Longrightarrow> length cnt = 7 \<Longrightarrow>
         \<exists>out' cnt'. remap ranks p cs out cnt = Some (out', cnt') \<and> length cnt' = 7 \<and>
           length out' = length out + length cs \<and>
           (sum_list (map unat cnt) + length cs < 65536 \<longrightarrow>
              sum_list (map unat cnt') = sum_list (map unat cnt) + length cs)"
proof (induction cs arbitrary: p out cnt)
  case Nil
  then show ?case by simp
next
  case (Cons c cs)
  have c7: "c < 7" using Cons.prems by simp
  let ?r = "ranks ! p ! c"
  have cl: "c < length (ranks ! p)" and r7: "?r < 7"
    using ranks_ok_nth [OF ok Cons.prems(1) c7] by auto
  let ?cnt = "cnt[?r := cnt ! ?r + 1]"
  have "\<forall>c\<in>set cs. c < 7" "length ?cnt = 7" using Cons.prems by auto
  from Cons.IH [OF c7 this, of "out @ [?r]"] obtain out' cnt' where
    res: "remap ranks c cs (out @ [?r]) ?cnt = Some (out', cnt')" "length cnt' = 7"
      "length out' = length (out @ [?r]) + length cs"
    and sum: "sum_list (map unat ?cnt) + length cs < 65536 \<longrightarrow>
              sum_list (map unat cnt') = sum_list (map unat ?cnt) + length cs"
    by blast
  have step: "remap ranks p (c # cs) out cnt = Some (out', cnt')"
    using res(1) cl r7 Cons.prems ok by (simp add: ranks_ok_def)
  have "sum_list (map unat cnt') = sum_list (map unat cnt) + length (c # cs)"
    if lt: "sum_list (map unat cnt) + length (c # cs) < 65536"
  proof -
    have "sum_list (map unat ?cnt) = Suc (sum_list (map unat cnt))"
      using lt r7 Cons.prems by (intro unat_sum_incr) auto
    with sum lt show ?thesis by simp
  qed
  with step res show ?case by simp
qed

lemma compute_markov_Some:
  assumes q: "\<forall>row\<in>set frame. \<forall>c\<in>set row. c < 7"
  shows "\<exists>out ranks cnt. compute_markov frame = Some (out, ranks, cnt) \<and>
           ranks_ok ranks \<and> length cnt = 7 \<and>
           (length (concat frame) < 65536 \<longrightarrow> sum_list (map unat cnt) = length (concat frame))"
proof -
  have cs: "\<forall>c\<in>set (concat frame). c < 7" using q by auto
  have "square 7 (replicate NUMCHARS (replicate NUMCHARS 0))"
    by (simp add: square_def NUMCHARS_def)
  from count_pairs_Some [OF this _ cs, of 0] obtain mat where
    mat: "count_pairs (replicate NUMCHARS (replicate NUMCHARS 0)) 0 (concat frame) = Some mat"
    and sq: "square 7 mat" by auto
  have ok: "ranks_ok (map rank_row mat)"
    using sq by (auto simp: ranks_ok_def square_def rank_row_perm)
  from remap_Some [OF ok _ cs, of 0 "replicate NUMCHARS 0" "[]"] obtain out cnt where
    rm: "remap (map rank_row mat) 0 (concat frame) [] (replicate NUMCHARS 0) = Some (out, cnt)"
    and lc: "length cnt = 7"
    and sum: "length (concat frame) < 65536 \<longrightarrow> sum_list (map unat cnt) = length (concat frame)"
    by (auto simp: NUMCHARS_def sum_list_replicate)
  have "compute_markov frame = Some (chop (map length frame) out, map rank_row mat, cnt)"
    by (simp add: compute_markov_def mat rm)
  with ok lc sum show ?thesis by blast
qed

lemma length_concat_rect:
  "\<forall>row\<in>set frame. length row = w \<Longrightarrow> length (concat frame) = w * length frame"
  by (induction frame) auto

section \<open>Claims about compute_markov\<close>

text \<open>
  C5: for every quantized frame (all symbols in 0..6) \<open>compute_markov\<close> returns, and
  every one of the seven rows of its rank matrix is a permutation of 0..6: each rank
  appears exactly once.
\<close>

theorem rank_rows_permutation:
  assumes "\<forall>row\<in>set frame. \<forall>c\<in>set row. c < 7"
  shows "\<exists>out ranks cnt. compute_markov frame = Some (out, ranks, cnt) \<and>
           length ranks = 7 \<and> (\<forall>r\<in>set ranks. mset r = mset [0..<7])"
  using compute_markov_Some [OF assms] unfolding ranks_ok_def by blast

text \<open>
  C6, amended: for every quantized frame of \<open>length frame\<close> rows of width \<open>w\<close> with
  fewer than \<open>2 ^ 16\<close> pixels, the seven counts of the histogram sum to
  \<open>w * length frame\<close>.
\<close>

theorem histogram_conservation:
  assumes "\<forall>row\<in>set frame. \<forall>c\<in>set row. c < 7"
    and "\<forall>row\<in>set frame. length row = w"
    and "w * length frame < 65536"
  shows "\<exists>out ranks cnt. compute_markov frame = Some (out, ranks, cnt) \<and>
           length cnt = 7 \<and> sum_list (map unat cnt) = w * length frame"
  using compute_markov_Some [OF assms(1)] length_concat_rect [OF assms(2)] assms(3)
  by auto

lemma count_pairs_zeros:
  "0 < length mat \<Longrightarrow> 0 < length (mat ! 0) \<Longrightarrow>
   count_pairs mat 0 (replicate n 0) = Some (mat[0 := (mat ! 0)[0 := mat ! 0 ! 0 + of_nat n]])"
proof (induction n arbitrary: mat)
  case 0
  then show ?case by simp
next
  case (Suc n)
  let ?mat = "mat[0 := (mat ! 0)[0 := mat ! 0 ! 0 + 1]]"
  have "count_pairs ?mat 0 (replicate n 0)
          = Some (?mat[0 := (?mat ! 0)[0 := ?mat ! 0 ! 0 + of_nat n]])"
    using Suc.prems by (intro Suc.IH) auto
  then show ?case using Suc.prems by (simp add: add.assoc)
qed

lemma remap_zeros:
  "0 < length ranks \<Longrightarrow> 0 < length (ranks ! 0) \<Longrightarrow> ranks ! 0 ! 0 < length cnt \<Longrightarrow>
   remap ranks 0 (replicate n 0) out cnt =
     Some (out @ replicate n (ranks ! 0 ! 0),
           cnt[ranks ! 0 ! 0 := cnt ! (ranks ! 0 ! 0) + of_nat n])"
proof (induction n arbitrary: out cnt)
  case 0
  then show ?case by simp
next
  case (Suc n)
  let ?r = "ranks ! 0 ! 0"
  let ?cnt = "cnt[?r := cnt ! ?r + 1]"
  have "remap ranks 0 (replicate n 0) (out @ [?r]) ?cnt =
     Some ((out @ [?r]) @ replicate n ?r, ?cnt[?r := ?cnt ! ?r + of_nat n])"
    using Suc.prems by (intro Suc.IH) auto
  then show ?case using Suc.prems by (simp add: add.assoc replicate_app_Cons_same Let_def)
qed

text \<open>
  C6 as stated (for every frame) fails on a frame of one row of 65536 pixels, all of
  symbol 0: the count \<^verbatim>\<open>mat[0, 0]\<close> wraps to 0, so symbol 0 has rank 6 after
  symbol 0, and the count of rank 6 wraps to 0 as well. The histogram sums to 0.
\<close>

theorem histogram_wraps_counterexample:
  "compute_markov [replicate 65536 0] =
     Some ([replicate 65536 6], replicate 7 [6, 5, 4, 3, 2, 1, 0], [0, 0, 0, 0, 0, 0, 0]) \<and>
   sum_list (map unat [0, 0, 0, 0, 0, 0, 0 :: u16]) \<noteq> 65536 * length [replicate 65536 (0 :: nat)]"
proof -
  let ?z = "replicate 7 (replicate 7 (0 :: u16))"
  let ?rk = "replicate 7 [6, 5, 4, 3, 2, 1, 0 :: nat]"
  have w: "of_nat 65536 = (0 :: u16)" by simp
  have u: "?z[0 := (?z ! 0)[0 := ?z ! 0 ! 0 + 0]] = ?z"
    by code_simp
  have "count_pairs ?z 0 (replicate 65536 0)
          = Some (?z[0 := (?z ! 0)[0 := ?z ! 0 ! 0 + of_nat 65536]])"
    by (rule count_pairs_zeros) simp_all
  then have c: "count_pairs ?z 0 (replicate 65536 0) = Some ?z"
    by (simp only: w u)
  have rk: "map rank_row ?z = ?rk"
    by code_simp
  have r0: "?rk ! 0 ! 0 = 6"
    by code_simp
  have v: "(replicate 7 (0 :: u16))[6 := replicate 7 0 ! 6 + 0] = [0, 0, 0, 0, 0, 0, 0]"
    by code_simp
  have "remap ?rk 0 (replicate 65536 0) [] (replicate 7 0) =
          Some ([] @ replicate 65536 (?rk ! 0 ! 0),
                (replicate 7 0)[?rk ! 0 ! 0 := replicate 7 0 ! (?rk ! 0 ! 0) + of_nat 65536])"
    by (rule remap_zeros) (simp_all add: r0)
  then have m: "remap ?rk 0 (replicate 65536 0) [] (replicate 7 0) =
          Some (replicate 65536 6, [0, 0, 0, 0, 0, 0, 0])"
    by (simp only: w r0 v append_Nil)
  have ch: "chop (map length [replicate 65536 (0 :: nat)]) (replicate 65536 (6 :: nat))
              = [replicate 65536 6]"
    by simp
  have cc: "concat [replicate 65536 (0 :: nat)] = replicate 65536 0"
    by simp
  have "compute_markov [replicate 65536 0] =
     Some ([replicate 65536 6], ?rk, [0, 0, 0, 0, 0, 0, 0])"
    unfolding compute_markov_def NUMCHARS_def cc c option.case Let_def rk m prod.case ch
    by (rule refl)
  moreover have "sum_list (map unat [0, 0, 0, 0, 0, 0, 0 :: u16])
                 \<noteq> 65536 * length [replicate 65536 (0 :: nat)]"
    by simp
  ultimately show ?thesis by (rule conjI)
qed

text \<open>A frame of two rows of three pixels.\<close>

theorem rank_rows_permutation_witness:
  "compute_markov [[0, 1, 2], [6, 6, 5]] =
     Some ([[1, 0, 0], [0, 0, 1]],
           [[1, 0, 6, 5, 4, 3, 2], [6, 5, 0, 4, 3, 2, 1], [6, 5, 4, 3, 2, 1, 0],
            [6, 5, 4, 3, 2, 1, 0], [6, 5, 4, 3, 2, 1, 0], [6, 5, 4, 3, 2, 1, 0],
            [6, 5, 4, 3, 2, 1, 0]],
           [4, 2, 0, 0, 0, 0, 0]) \<and>
   list_all (\<lambda>r. mset r = mset [0..<7])
          [[1, 0, 6, 5, 4, 3, 2], [6, 5, 0, 4, 3, 2, 1], [6, 5, 4, 3, 2, 1, 0],
            [6, 5, 4, 3, 2, 1, 0], [6, 5, 4, 3, 2, 1, 0], [6, 5, 4, 3, 2, 1, 0],
            [6, 5, 4, 3, 2, 1, 0]]"
proof -
  have ev: "compute_markov [[0, 1, 2], [6, 6, 5]] =
     Some ([[1, 0, 0], [0, 0, 1]],
           [[1, 0, 6, 5, 4, 3, 2], [6, 5, 0, 4, 3, 2, 1], [6, 5, 4, 3, 2, 1, 0],
            [6, 5, 4, 3, 2, 1, 0], [6, 5, 4, 3, 2, 1, 0], [6, 5, 4, 3, 2, 1, 0],
            [6, 5, 4, 3, 2, 1, 0]],
           [4, 2, 0, 0, 0, 0, 0])"
    by code_simp
  have q: "\<forall>row\<in>set [[0, 1, 2], [6, 6, 5 :: nat]]. \<forall>c\<in>set row. c < 7" by simp
  from rank_rows_permutation [OF q] ev show ?thesis
    by (simp only: list_all_iff) auto
qed

text \<open>The same frame: six pixels, and the histogram sums to six.\<close>

theorem histogram_conservation_witness:
  "compute_markov [[0, 1, 2], [6, 6, 5]] =
     Some ([[1, 0, 0], [0, 0, 1]],
           [[1, 0, 6, 5, 4, 3, 2], [6, 5, 0, 4, 3, 2, 1], [6, 5, 4, 3, 2, 1, 0],
            [6, 5, 4, 3, 2, 1, 0], [6, 5, 4, 3, 2, 1, 0], [6, 5, 4, 3, 2, 1, 0],
            [6, 5, 4, 3, 2, 1, 0]],
           [4, 2, 0, 0, 0, 0, 0]) \<and>
   sum_list (map unat [4, 2, 0, 0, 0, 0, 0 :: u16]) = 3 * length [[0, 1, 2], [6, 6, 5 :: nat]]"
proof -
  have ev: "compute_markov [[0, 1, 2], [6, 6, 5]] =
     Some ([[1, 0, 0], [0, 0, 1]],
           [[1, 0, 6, 5, 4, 3, 2], [6, 5, 0, 4, 3, 2, 1], [6, 5, 4, 3, 2, 1, 0],
            [6, 5, 4, 3, 2, 1, 0], [6, 5, 4, 3, 2, 1, 0], [6, 5, 4, 3, 2, 1, 0],
            [6, 5, 4, 3, 2, 1, 0]],
           [4, 2, 0, 0, 0, 0, 0])"
    by code_simp
  have q: "\<forall>row\<in>set [[0, 1, 2], [6, 6, 5 :: nat]]. \<forall>c\<in>set row. c < 7" by simp
  have r: "\<forall>row\<in>set [[0, 1, 2], [6, 6, 5 :: nat]]. length row = 3" by simp
  have b: "3 * length [[0, 1, 2], [6, 6, 5 :: nat]] < 65536" by simp
  from histogram_conservation [OF q r b] obtain out ranks cnt where
    "compute_markov [[0, 1, 2], [6, 6, 5]] = Some (out, ranks, cnt)"
    "sum_list (map unat cnt) = 3 * length [[0, 1, 2], [6, 6, 5 :: nat]]"
    by blast
  with ev show ?thesis by simp
qed

section \<open>The permutation encoding of encode_matrix\<close>

lemma py_index_Some:
  "x \<in> set xs \<Longrightarrow> \<exists>i. py_index xs x = Some i \<and> i < length xs \<and> xs ! i = x"
  by (induction xs) auto

lemma image_nth_eq:
  assumes d: "distinct row" and di: "distinct idxs" and l: "length idxs = length ks"
    and dk: "distinct ks"
    and sub: "\<forall>s\<in>set idxs. s < length row \<and> row ! s \<in> set ks"
  shows "(\<lambda>s. row ! s) ` set idxs = set ks"
proof -
  have inj: "inj_on (\<lambda>s. row ! s) (set idxs)"
    using d sub by (auto simp: inj_on_def nth_eq_iff_index_eq)
  have "card ((\<lambda>s. row ! s) ` set idxs) = card (set idxs)"
    by (rule card_image [OF inj])
  also have "\<dots> = card (set ks)"
    using di dk l by (simp add: distinct_card)
  finally have c: "card ((\<lambda>s. row ! s) ` set idxs) = card (set ks)" .
  have "(\<lambda>s. row ! s) ` set idxs \<subseteq> set ks" using sub by auto
  then show ?thesis using c by (intro card_subset_eq) auto
qed

lemma lehmer_roundtrip:
  assumes d: "distinct row"
  shows "distinct ks \<Longrightarrow> distinct idxs \<Longrightarrow> length idxs = length ks \<Longrightarrow>
         \<forall>s\<in>set idxs. s < length row \<and> row ! s \<in> set ks \<Longrightarrow>
         \<exists>e. encode_loop row ks enc fct idxs = Some (enc + fct * e) \<and> e < fact (length ks) \<and>
             (\<forall>r. length r = length row \<longrightarrow>
                decode_loop ks e idxs r =
                  map (\<lambda>j. if j \<in> set idxs then row ! j else r ! j) [0..<length row])"
proof (induction ks arbitrary: idxs enc fct)
  case Nil
  then have "idxs = []" by simp
  then show ?case by (auto simp: map_nth intro!: nth_equalityI)
next
  case (Cons k rest)
  let ?L = "length idxs"
  have img: "(\<lambda>s. row ! s) ` set idxs = set (k # rest)"
    using d Cons.prems(2,3,1,4) by (rule image_nth_eq)
  then have "k \<in> (\<lambda>s. row ! s) ` set idxs" by simp
  then obtain s where s: "s \<in> set idxs" "row ! s = k" by (auto simp: image_iff)
  with Cons.prems have sl: "s < length row" by auto
  have "k \<in> set row" using s sl by auto
  from py_index_Some [OF this] obtain s' where
    s': "py_index row k = Some s'" "s' < length row" "row ! s' = k" by blast
  with s sl have "s' = s" using nth_eq_iff_index_eq [OF d, of s' s] by simp
  with s' have pr: "py_index row k = Some s" by simp
  from py_index_Some [OF s(1)] obtain pos where
    pos: "py_index idxs s = Some pos" "pos < ?L" "idxs ! pos = s" by blast
  let ?idxs = "remove1 s idxs"
  have p1: "distinct rest" using Cons.prems by simp
  have p2: "distinct ?idxs" using Cons.prems by simp
  have p3: "length ?idxs = length rest"
    using Cons.prems s by (simp add: length_remove1)
  have p4: "\<forall>t\<in>set ?idxs. t < length row \<and> row ! t \<in> set rest"
  proof
    fix t assume t: "t \<in> set ?idxs"
    then have ti: "t \<in> set idxs" "t \<noteq> s" using Cons.prems(2) by auto
    with Cons.prems have tl: "t < length row" "row ! t \<in> set (k # rest)" by auto
    have "row ! t \<noteq> k" using ti tl sl s nth_eq_iff_index_eq [OF d, of t s] by simp
    with tl show "t < length row \<and> row ! t \<in> set rest" by simp
  qed
  from Cons.IH [OF p1 p2 p3 p4, of "enc + pos * fct" "fct * ?L"] obtain e where
    e: "encode_loop row rest (enc + pos * fct) (fct * ?L) ?idxs
          = Some (enc + pos * fct + fct * ?L * e)"
      "e < fact (length rest)"
    and dec: "\<forall>r. length r = length row \<longrightarrow>
                decode_loop rest e ?idxs r =
                  map (\<lambda>j. if j \<in> set ?idxs then row ! j else r ! j) [0..<length row]"
    by blast
  let ?e = "pos + ?L * e"
  have L: "?L = Suc (length rest)" using Cons.prems by simp
  have enc: "encode_loop row (k # rest) enc fct idxs = Some (enc + fct * ?e)"
    using pr pos e(1) by (simp add: algebra_simps)
  have "?e < ?L + ?L * e" using pos by simp
  also have "\<dots> = ?L * Suc e" by simp
  also have "\<dots> \<le> ?L * fact (length rest)"
    using e(2) by (intro mult_le_mono2) simp
  also have "\<dots> = fact (length (k # rest))" by (simp add: L)
  finally have bound: "?e < fact (length (k # rest))" .
  have dm: "(p + n * q) mod n = p \<and> (p + n * q) div n = q" if "p < n" for p n q :: nat
    using that by simp
  have m: "?e mod ?L = pos" "?e div ?L = e"
    using dm [OF pos(2)] by blast+
  have decode: "decode_loop (k # rest) ?e idxs r =
         map (\<lambda>j. if j \<in> set idxs then row ! j else r ! j) [0..<length row]"
    if lr: "length r = length row" for r
  proof -
    have "decode_loop (k # rest) ?e idxs r = decode_loop rest e ?idxs (r[s := k])"
      by (simp only: decode_loop.simps Let_def m pos)
    also have "\<dots> = map (\<lambda>j. if j \<in> set ?idxs then row ! j else r[s := k] ! j) [0..<length row]"
      using dec lr by simp
    also have "\<dots> = map (\<lambda>j. if j \<in> set idxs then row ! j else r ! j) [0..<length row]"
    proof (rule map_cong [OF refl])
      fix j assume "j \<in> set [0..<length row]"
      then have jl: "j < length r" using lr by simp
      show "(if j \<in> set ?idxs then row ! j else r[s := k] ! j)
            = (if j \<in> set idxs then row ! j else r ! j)"
      proof (cases "j = s")
        case True
        then show ?thesis using Cons.prems(2) s jl by simp
      next
        case False
        then show ?thesis using Cons.prems(2) by simp
      qed
    qed
    finally show ?thesis .
  qed
  from enc bound decode show ?case by blast
qed

lemma perm_facts:
  assumes "mset row = mset [0..<7]"
  shows "distinct row" "length row = 7" "set row = {0..<7}"
proof -
  show "distinct row" using assms by (metis distinct_upt mset_eq_imp_distinct_iff)
  show "length row = 7" using assms by (metis length_upt mset_eq_length diff_zero)
  show "set row = {0..<7}" using assms by (metis mset_eq_setD set_upt)
qed

lemma encode_row_decode:
  assumes "mset row = mset [0..<7]"
  shows "\<exists>e. encode_row row = Some e \<and> e < 5040 \<and> decode_row e = row"
proof -
  note pf = perm_facts [OF assms]
  have sub: "\<forall>s\<in>set [0..<7]. s < length row \<and> row ! s \<in> set [0..<7]"
    using pf by (auto simp del: upt.simps dest: nth_mem)
  from lehmer_roundtrip [OF pf(1) _ _ _ sub, of 0 1] obtain e where
    e: "encode_loop row [0..<7] 0 1 [0..<7] = Some (0 + 1 * e)" "e < fact (length [0..<7])"
    and dec: "\<forall>r. length r = length row \<longrightarrow>
                decode_loop [0..<7] e [0..<7] r =
                  map (\<lambda>j. if j \<in> set [0..<7] then row ! j else r ! j) [0..<length row]"
    by (auto simp del: upt.simps)
  have f7: "fact (length [0..<7]) = (5040 :: nat)"
    by (simp add: fact_numeral)
  have "decode_row e = map (\<lambda>j. if j \<in> set [0..<7] then row ! j else replicate 7 0 ! j) [0..<length row]"
    unfolding decode_row_def NUMCHARS_def using dec pf(2) by simp
  also have "\<dots> = map (\<lambda>j. row ! j) [0..<length row]"
    using pf(2) by (intro map_cong) auto
  also have "\<dots> = row" by (rule map_nth)
  finally have "decode_row e = row" .
  with e f7 show ?thesis by (simp add: encode_row_def NUMCHARS_def)
qed

lemma encode_matrix_rows_Some:
  "\<forall>row\<in>set ranks. mset row = mset [0..<7] \<Longrightarrow>
   \<exists>es. length es = length ranks \<and>
        (\<forall>i<length ranks. encode_row (ranks ! i) = Some (es ! i)) \<and>
        encode_matrix ranks = Some (concat (map (\<lambda>e. [e div 256, e mod 256]) es))"
proof (induction ranks)
  case Nil
  then show ?case by simp
next
  case (Cons row rows)
  then have p: "mset row = mset [0..<7]" by simp
  from encode_row_decode [OF p] obtain e where e: "encode_row row = Some e" by blast
  from Cons obtain es where es: "length es = length rows"
    "\<forall>i<length rows. encode_row (rows ! i) = Some (es ! i)"
    "encode_matrix rows = Some (concat (map (\<lambda>e. [e div 256, e mod 256]) es))"
    by auto
  have hb: "(e - e mod 256) div 256 = e div 256"
    by (simp add: minus_mod_eq_mult_div)
  have 1: "length (e # es) = length (row # rows)" using es(1) by simp
  have 2: "\<forall>i<length (row # rows). encode_row ((row # rows) ! i) = Some ((e # es) ! i)"
    using e es(2) by (auto simp: nth_Cons split: nat.splits)
  have 3: "encode_matrix (row # rows) =
             Some (concat (map (\<lambda>e. [e div 256, e mod 256]) (e # es)))"
    using e es(3) hb by (simp add: Let_def)
  from 1 2 3 show ?case by blast
qed

lemma concat_pairs:
  "length (concat (map (\<lambda>e. [f e, g e]) es)) = 2 * length es"
  "i < length es \<Longrightarrow> concat (map (\<lambda>e. [f e, g e]) es) ! (2 * i) = f (es ! i)"
  "i < length es \<Longrightarrow> concat (map (\<lambda>e. [f e, g e]) es) ! (2 * i + 1) = g (es ! i)"
proof -
  show "length (concat (map (\<lambda>e. [f e, g e]) es)) = 2 * length es"
    by (induction es) auto
  show "i < length es \<Longrightarrow> concat (map (\<lambda>e. [f e, g e]) es) ! (2 * i) = f (es ! i)"
    by (induction es arbitrary: i) (auto simp: nth_Cons split: nat.splits)
  show "i < length es \<Longrightarrow> concat (map (\<lambda>e. [f e, g e]) es) ! (2 * i + 1) = g (es ! i)"
    by (induction es arbitrary: i) (auto simp: nth_Cons split: nat.splits)
qed

lemma encode_matrix_Cons:
  "encode_row row = Some e \<Longrightarrow> encode_matrix rows = Some out \<Longrightarrow>
   encode_matrix (row # rows) = Some (e div 256 # e mod 256 # out)"
  by (simp add: Let_def minus_mod_eq_mult_div)

text \<open>
  C7: for every rank matrix whose rows are permutations of 0..6, \<open>encode_matrix\<close>
  returns two bytes per row, in row order. For row \<open>i\<close> the mixed-radix integer lies
  in \<open>[0, 5039]\<close>, byte \<open>2 * i\<close> is its high byte and byte \<open>2 * i + 1\<close> its low
  byte; reading the digits of \<open>high * 256 + low\<close> back returns the row, and no other
  permutation of 0..6 has the same integer.
\<close>

theorem encode_matrix_all_rows:
  assumes "\<forall>row\<in>set ranks. mset row = mset [0..<7]"
  shows "\<exists>bytes. encode_matrix ranks = Some bytes \<and> length bytes = 2 * length ranks \<and>
           (\<forall>i<length ranks.
              \<exists>e. encode_row (ranks ! i) = Some e \<and> e \<le> 5039 \<and>
                  bytes ! (2 * i) = e div 256 \<and> bytes ! (2 * i + 1) = e mod 256 \<and>
                  bytes ! (2 * i) < 256 \<and> bytes ! (2 * i + 1) < 256 \<and>
                  decode_row e = ranks ! i \<and>
                  decode_row (bytes ! (2 * i) * 256 + bytes ! (2 * i + 1)) = ranks ! i \<and>
                  (\<forall>row'. mset row' = mset [0..<7] \<longrightarrow> encode_row row' = Some e \<longrightarrow>
                     row' = ranks ! i))"
proof -
  from encode_matrix_rows_Some [OF assms] obtain es where
    es: "length es = length ranks"
      "\<forall>i<length ranks. encode_row (ranks ! i) = Some (es ! i)"
      "encode_matrix ranks = Some (concat (map (\<lambda>e. [e div 256, e mod 256]) es))"
    by blast
  let ?bytes = "concat (map (\<lambda>e. [e div 256, e mod 256]) es)"
  have len: "length ?bytes = 2 * length ranks"
    using concat_pairs(1) [of "\<lambda>e. e div 256" "\<lambda>e. e mod 256" es] es(1) by simp
  have row: "\<exists>e. encode_row (ranks ! i) = Some e \<and> e \<le> 5039 \<and>
                  ?bytes ! (2 * i) = e div 256 \<and> ?bytes ! (2 * i + 1) = e mod 256 \<and>
                  ?bytes ! (2 * i) < 256 \<and> ?bytes ! (2 * i + 1) < 256 \<and>
                  decode_row e = ranks ! i \<and>
                  decode_row (?bytes ! (2 * i) * 256 + ?bytes ! (2 * i + 1)) = ranks ! i \<and>
                  (\<forall>row'. mset row' = mset [0..<7] \<longrightarrow> encode_row row' = Some e \<longrightarrow>
                     row' = ranks ! i)"
    if i: "i < length ranks" for i
  proof -
    let ?e = "es ! i"
    have p: "mset (ranks ! i) = mset [0..<7]" using assms i by simp
    have enc: "encode_row (ranks ! i) = Some ?e" using es(2) i by simp
    from encode_row_decode [OF p] enc have b: "?e < 5040" and d: "decode_row ?e = ranks ! i"
      by auto
    have ie: "i < length es" using i es(1) by simp
    have hi: "?bytes ! (2 * i) = ?e div 256"
      by (rule concat_pairs(2) [OF ie])
    have lo: "?bytes ! (2 * i + 1) = ?e mod 256"
      by (rule concat_pairs(3) [OF ie])
    have rejoin: "?bytes ! (2 * i) * 256 + ?bytes ! (2 * i + 1) = ?e"
      unfolding hi lo by simp
    have inj: "row' = ranks ! i" if "mset row' = mset [0..<7]" "encode_row row' = Some ?e" for row'
    proof -
      from encode_row_decode [OF that(1)] that(2) have "decode_row ?e = row'" by auto
      with d show ?thesis by simp
    qed
    have "?e div 256 < 256" using b by simp
    with enc b hi lo d rejoin inj show ?thesis
      by (intro exI [of _ ?e]) (simp del: One_nat_def)
  qed
  from es(3) len row show ?thesis by blast
qed

text \<open>The rank matrix of the frame used above: seven rows, fourteen bytes.\<close>

theorem encode_matrix_all_rows_witness:
  "encode_matrix
     [[1, 0, 6, 5, 4, 3, 2], [6, 5, 0, 4, 3, 2, 1], [6, 5, 4, 3, 2, 1, 0],
      [6, 5, 4, 3, 2, 1, 0], [6, 5, 4, 3, 2, 1, 0], [6, 5, 4, 3, 2, 1, 0],
      [6, 5, 4, 3, 2, 1, 0]]
     = Some [19, 135, 19, 171, 19, 175, 19, 175, 19, 175, 19, 175, 19, 175] \<and>
   encode_row [1, 0, 6, 5, 4, 3, 2] = Some 4999 \<and>
   decode_row (19 * 256 + 135) = [1, 0, 6, 5, 4, 3, 2] \<and>
   decode_row (19 * 256 + 171) = [6, 5, 0, 4, 3, 2, 1]"
proof -
  let ?R = "[[1, 0, 6, 5, 4, 3, 2], [6, 5, 0, 4, 3, 2, 1], [6, 5, 4, 3, 2, 1, 0],
      [6, 5, 4, 3, 2, 1, 0], [6, 5, 4, 3, 2, 1, 0], [6, 5, 4, 3, 2, 1, 0],
      [6, 5, 4, 3, 2, 1, 0 :: nat]]"
  have m0: "mset [1, 0, 6, 5, 4, 3, 2 :: nat] = mset [0..<7]" by code_simp
  have m1: "mset [6, 5, 0, 4, 3, 2, 1 :: nat] = mset [0..<7]" by code_simp
  have m2: "mset [6, 5, 4, 3, 2, 1, 0 :: nat] = mset [0..<7]" by code_simp
  have p: "\<forall>row\<in>set ?R. mset row = mset [0..<7]"
    by (simp only: list.set ball_simps m0 m1 m2 simp_thms)
  have e0: "encode_row [1, 0, 6, 5, 4, 3, 2] = Some 4999" by code_simp
  have e1: "encode_row [6, 5, 0, 4, 3, 2, 1] = Some 5035" by code_simp
  have e2: "encode_row [6, 5, 4, 3, 2, 1, 0] = Some 5039" by code_simp
  have first: "encode_matrix ?R =
    Some [4999 div 256, 4999 mod 256, 5035 div 256, 5035 mod 256, 5039 div 256, 5039 mod 256,
          5039 div 256, 5039 mod 256, 5039 div 256, 5039 mod 256, 5039 div 256, 5039 mod 256,
          5039 div 256, 5039 mod 256]"
    by (intro encode_matrix_Cons e0 e1 e2 encode_matrix.simps(1))
  have v: "[4999 div 256, 4999 mod 256, 5035 div 256, 5035 mod 256, 5039 div 256, 5039 mod 256,
          5039 div 256, 5039 mod 256, 5039 div 256, 5039 mod 256, 5039 div 256, 5039 mod 256,
          5039 div 256, 5039 mod 256]
          = [19, 135, 19, 171, 19, 175, 19, 175, 19, 175, 19, 175, 19, 175 :: nat]"
    by simp
  have ev: "encode_matrix ?R = Some [19, 135, 19, 171, 19, 175, 19, 175, 19, 175, 19, 175, 19, 175]"
    using first unfolding v .
  from encode_matrix_all_rows [OF p] obtain bytes where
    b: "encode_matrix ?R = Some bytes"
    and r: "\<forall>i<length ?R. decode_row (bytes ! (2 * i) * 256 + bytes ! (2 * i + 1)) = ?R ! i"
    by blast
  from b ev have bv: "bytes = [19, 135, 19, 171, 19, 175, 19, 175, 19, 175, 19, 175, 19, 175]"
    by simp
  have "(0 :: nat) < length ?R" "(1 :: nat) < length ?R" by simp_all
  with r have "decode_row (bytes ! (2 * 0) * 256 + bytes ! (2 * 0 + 1)) = ?R ! 0"
    "decode_row (bytes ! (2 * 1) * 256 + bytes ! (2 * 1 + 1)) = ?R ! 1"
    by blast+
  then have d0: "decode_row (19 * 256 + 135) = [1, 0, 6, 5, 4, 3, 2]"
    and d1: "decode_row (19 * 256 + 171) = [6, 5, 0, 4, 3, 2, 1]"
    unfolding bv by simp_all
  from ev e0 d0 d1 show ?thesis by (intro conjI)
qed

section \<open>Every symbol is merged: the tree and the codewords of compute_huffman\<close>

lemma descends_append:
  "descends tree k s bs \<Longrightarrow> descends (tree @ xs) k s bs"
proof (induction rule: descends.induct)
  case (here k)
  show ?case by (rule descends.here)
next
  case (left k s bs)
  then show ?case by (intro descends.left) (auto simp: nth_append)
next
  case (right k s bs)
  then show ?case by (intro descends.right) (auto simp: nth_append)
qed

lemma mset_insert_entry: "mset (insert_entry new es) = add_mset new (mset es)"
  by (induction es) auto

lemma hlink_init:
  fixes cnts :: "('a::{linorder,plus}) list"
  shows "hlink (length cnts) (huffman_init cnts)"
proof -
  let ?n = "length cnts"
  have "mset (map e_node (sorted_reverse (seed_sizes cnts))) = mset (map e_node (seed_sizes cnts))"
    by (simp add: sorted_reverse_def)
  also have "map e_node (seed_sizes cnts) = [0..<?n]"
    by (simp add: seed_sizes_def e_node_def comp_def map_idI)
  finally have a: "mset (map e_node (sorted_reverse (seed_sizes cnts))) = mset [0..<?n]" .
  have b: "descends (map (\<lambda>i. (i, i)) [0..<?n]) (e_node e) s (replicate ?n [] ! s)"
    if "e \<in> set (sorted_reverse (seed_sizes cnts))" "s \<in> set (e_members e)" for e s
  proof -
    from that(1) have "e \<in> set (seed_sizes cnts)" by (simp add: sorted_reverse_def)
    with that(2) have "e_node e = s" "s < ?n"
      by (auto simp: seed_sizes_def e_node_def e_members_def)
    then show ?thesis by (simp add: descends.here)
  qed
  show ?thesis
    unfolding hlink_def huffman_init_def using a b by (simp add: children_def)
qed


lemma hlink_step:
  fixes rest :: "('a::{linorder,plus}) entry list"
  assumes inv: "hinv n (codes, rest @ [l, r], tree)"
    and lk: "hlink n (codes, rest @ [l, r], tree)"
    and step: "merge_step (codes, rest @ [l, r], tree) = Some st'"
  shows "hlink n st'"
proof -
  let ?L = "e_members l" and ?R = "e_members r"
  let ?M = "concat (map e_members rest)"
  let ?codes' = "prepended (CHR ''1'') (set ?R) (prepended (CHR ''0'') (set ?L) codes)"
  let ?new = "(e_count l + e_count r, ?L @ ?R, length tree)"
  let ?tree' = "tree @ [(e_node l, e_node r)]"
  note res = merge_step_result [OF inv]
  from res(1) step have st': "st' = (?codes', insert_entry ?new rest, ?tree')" by simp
  have lc: "length codes = n" and ms: "mset (?M @ ?L @ ?R) = mset [0..<n]"
    and nodes: "e_node l < length tree" "e_node r < length tree"
    and tr: "tree_ok n tree"
    using inv by (auto simp: hinv_def)
  have nt: "n \<le> length tree" using tr by (simp add: tree_ok_def)
  have dist: "distinct (?M @ ?L @ ?R)"
    using ms by (metis distinct_upt mset_eq_imp_distinct_iff)
  have sub: "set (?M @ ?L @ ?R) = {0..<n}"
    using ms by (metis mset_eq_setD set_upt)
  have cL: "?codes' ! s = CHR ''0'' # codes ! s" if "s \<in> set ?L" for s
    using that res(2,3) by (auto simp: nth_prepended)
  have cR: "?codes' ! s = CHR ''1'' # codes ! s" if "s \<in> set ?R" for s
    using that res(2,3) by (auto simp: nth_prepended)
  have cM: "?codes' ! s = codes ! s" if "s \<in> set ?M" for s
  proof -
    have "s < length codes" using that sub lc by auto
    moreover have "s \<notin> set ?L" "s \<notin> set ?R" using that dist by auto
    ultimately show ?thesis by (simp add: nth_prepended)
  qed
  have old_ms: "mset (map e_node rest) + {#e_node l, e_node r#} + mset (children (drop n tree))
                  = mset [0..<length tree]"
    using lk by (simp add: hlink_def ac_simps)
  have old_d: "descends tree (e_node e) s (codes ! s)"
    if "e \<in> set (rest @ [l, r])" "s \<in> set (e_members e)" for e s
    using lk that unfolding hlink_def by auto
  have new_ms: "mset (map e_node (insert_entry ?new rest)) + mset (children (drop n ?tree'))
                  = mset [0..<length ?tree']"
  proof -
    have "mset (map e_node (insert_entry ?new rest)) = add_mset (length tree) (mset (map e_node rest))"
      by (simp add: mset_insert_entry e_node_def)
    moreover have "mset (children (drop n ?tree'))
                     = mset (children (drop n tree)) + {#e_node l, e_node r#}"
      using nt by (simp add: children_def)
    ultimately show ?thesis using old_ms by (simp add: ac_simps add_mset_commute)
  qed
  have new_d: "descends ?tree' (e_node e) s (?codes' ! s)"
    if e: "e \<in> set (insert_entry ?new rest)" and s: "s \<in> set (e_members e)" for e s
  proof (cases "e = ?new")
    case True
    then have nd: "e_node e = length tree" and mem: "s \<in> set ?L \<or> s \<in> set ?R"
      using s by (auto simp: e_node_def e_members_def)
    have k: "length tree < length ?tree'" by simp
    have at: "?tree' ! length tree = (e_node l, e_node r)" by simp
    from mem show ?thesis
    proof
      assume sl: "s \<in> set ?L"
      have "descends ?tree' (e_node l) s (codes ! s)"
        using old_d [of l s] sl by (intro descends_append) simp
      then have "descends ?tree' (length tree) s (CHR ''0'' # codes ! s)"
        using nodes(1) by (intro descends.left) (simp_all only: k at fst_conv)
      then show ?thesis using cL [OF sl] nd by simp
    next
      assume sr: "s \<in> set ?R"
      have "descends ?tree' (e_node r) s (codes ! s)"
        using old_d [of r s] sr by (intro descends_append) simp
      then have "descends ?tree' (length tree) s (CHR ''1'' # codes ! s)"
        using nodes(2) by (intro descends.right) (simp_all only: k at snd_conv)
      then show ?thesis using cR [OF sr] nd by simp
    qed
  next
    case False
    with e have er: "e \<in> set rest" by simp
    with s have "s \<in> set ?M" by auto
    then have "?codes' ! s = codes ! s" by (rule cM)
    moreover have "descends ?tree' (e_node e) s (codes ! s)"
      using old_d [of e s] er s by (intro descends_append) simp
    ultimately show ?thesis by simp
  qed
  show ?thesis
    unfolding st' hlink_def prod.case using new_ms new_d by blast
qed

lemma loop_state_link:
  fixes cnts :: "('a::{linorder,plus}) list"
  assumes ne: "cnts \<noteq> []"
  shows "loop_state cnts k = Some st \<Longrightarrow> hlink (length cnts) st"
proof (induction k arbitrary: st)
  case 0
  then show ?case using hlink_init [of cnts] by simp
next
  case (Suc k)
  from Suc.prems obtain c0 s0 t0 where
    prev: "loop_state cnts k = Some (c0, s0, t0)" and long: "1 < length s0"
    and step: "merge_step (c0, s0, t0) = Some st"
    by (auto split: option.splits if_splits)
  obtain rest l r where sz: "s0 = rest @ [l, r]"
    using last_two [OF long] by blast
  from loop_state_inv [OF ne prev] have inv0: "hinv (length cnts) (c0, rest @ [l, r], t0)"
    by (simp add: sz)
  from Suc.IH [OF prev] have lk0: "hlink (length cnts) (c0, rest @ [l, r], t0)"
    by (simp add: sz)
  from step show ?case
    unfolding sz by (rule hlink_step [OF inv0 lk0])
qed

lemma loop_runs:
  fixes cnts :: "('a::{linorder,plus}) list"
  assumes ne: "cnts \<noteq> []"
  shows "k < length cnts \<Longrightarrow>
         \<exists>codes sizes tree. loop_state cnts k = Some (codes, sizes, tree) \<and>
                            length sizes = length cnts - k"
proof (induction k)
  case 0
  show ?case by (simp add: huffman_init_def sorted_reverse_def seed_sizes_def)
next
  case (Suc k)
  then obtain c0 s0 t0 where prev: "loop_state cnts k = Some (c0, s0, t0)"
    and len: "length s0 = length cnts - k" by auto
  with Suc.prems have long: "1 < length s0" by simp
  obtain rest l r where sz: "s0 = rest @ [l, r]"
    using last_two [OF long] by blast
  from loop_state_inv [OF ne prev] have inv0: "hinv (length cnts) (c0, rest @ [l, r], t0)"
    by (simp add: sz)
  note res = merge_step_result(1) [OF inv0]
  have "loop_state cnts (Suc k) = merge_step (c0, rest @ [l, r], t0)"
    using prev long by (simp add: sz)
  with res len show ?case by (simp add: sz)
qed


lemma root_is_last:
  assumes tr: "tree_ok n tree" and n: "n < length tree"
    and ms: "add_mset last_entry (mset (children (drop n tree))) = mset [0..<length tree]"
  shows "last_entry = length tree - 1"
    and "mset (children (drop n tree)) = mset [0..<length tree - 1]"
proof -
  let ?m = "length tree - 1"
  have small: "c < ?m" if "c \<in> set (children (drop n tree))" for c
  proof -
    from that obtain p where p: "p \<in> set (drop n tree)" "c = fst p \<or> c = snd p"
      by (auto simp: children_def)
    then obtain j where j: "j < length (drop n tree)" "drop n tree ! j = p"
      by (auto simp: in_set_conv_nth)
    then have k: "n + j < length tree" "tree ! (n + j) = p" by auto
    with tr have "fst p < n + j \<and> snd p < n + j"
      unfolding tree_ok_def by (auto dest!: spec [of _ "n + j"])
    with p k show ?thesis by auto
  qed
  have "?m \<in># mset [0..<length tree]" using n by simp
  then have "?m \<in># add_mset last_entry (mset (children (drop n tree)))" by (simp only: ms)
  then have "?m = last_entry \<or> ?m \<in> set (children (drop n tree))" by auto
  with small show r: "last_entry = ?m" by auto
  have "[0..<length tree] = [0..<?m] @ [?m]"
    using n by (metis Suc_diff_1 less_nat_zero_code neq0_conv upt_Suc_append zero_le)
  then have "mset [0..<length tree] = add_mset ?m (mset [0..<?m])" by simp
  with ms r show "mset (children (drop n tree)) = mset [0..<?m]" by simp
qed

text \<open>
  C9: for every 7-entry histogram (the all-zero one and those with a single nonzero entry
  included) \<open>compute_huffman\<close> ends without an error after exactly six merges and
  returns a table of seven codewords and a tree of 13 nodes. Every symbol, whatever its
  count, takes part in the merges: the last entry of the working list holds all seven
  symbols and is node 12, each of the nodes 0..11 (the seven leaves among them) is a
  child of exactly one internal node, and the codeword of every symbol is non-empty and
  is the path from node 12 down to the symbol's leaf.
\<close>

theorem compute_huffman_merges:
  fixes cnts :: "('a::{linorder,plus}) list"
  assumes "length cnts = 7"
  shows "\<exists>codes tree last_entry.
           compute_huffman cnts = Some (codes, tree) \<and>
           length codes = 7 \<and> length tree = 13 \<and> (\<forall>c\<in>set codes. c \<noteq> []) \<and>
           loop_state cnts 6 = Some (codes, [last_entry], tree) \<and>
           e_node last_entry = 12 \<and> mset (e_members last_entry) = mset [0..<7] \<and>
           mset (children (drop 7 tree)) = mset [0..<12] \<and>
           (\<forall>s\<in>{0..<7}. descends tree 12 s (codes ! s))"
proof -
  from assms have ne: "cnts \<noteq> []" by auto
  from loop_runs [OF ne, of 6] assms obtain codes sizes tree where
    st: "loop_state cnts 6 = Some (codes, sizes, tree)" and "length sizes = 1"
    by auto
  then obtain last_entry where sz: "sizes = [last_entry]"
    by (cases sizes) auto
  note st = st [unfolded sz]
  from loop_state_inv [OF ne st] have inv: "hinv 7 (codes, [last_entry], tree)"
    and lp: "huffman_loop (codes, [last_entry], tree) = compute_huffman cnts"
    using assms by auto
  have r: "compute_huffman cnts = Some (codes, tree)"
    using lp by simp
  have f: "hfinal 7 codes tree"
    by (rule hinv_final [OF inv]) simp
  then have lc: "length codes = 7" and lt: "length tree = 13" and tr: "tree_ok 7 tree"
    by (auto simp: hfinal_def)
  have nonempty: "\<forall>c\<in>set codes. c \<noteq> []"
    by (rule hfinal_nonempty [OF f]) simp
  have mem: "mset (e_members last_entry) = mset [0..<7]"
    using inv by (simp add: hinv_def)
  then have setm: "set (e_members last_entry) = {0..<7}"
    by (metis mset_eq_setD set_upt)
  from loop_state_link [OF ne st] assms have lk: "hlink 7 (codes, [last_entry], tree)" by simp
  then have ms: "add_mset (e_node last_entry) (mset (children (drop 7 tree))) = mset [0..<length tree]"
    and de: "\<forall>s\<in>set (e_members last_entry). descends tree (e_node last_entry) s (codes ! s)"
    by (auto simp: hlink_def)
  have n: "7 < length tree" using lt by simp
  from root_is_last [OF tr n ms] lt
  have rt: "e_node last_entry = 12" and ch: "mset (children (drop 7 tree)) = mset [0..<12]"
    by auto
  from de setm rt have paths: "\<forall>s\<in>{0..<7}. descends tree 12 s (codes ! s)" by simp
  from r lc lt nonempty st rt mem ch paths show ?thesis by blast
qed

text \<open>
  The all-zero histogram of \<^verbatim>\<open>np.uint16\<close> counts: the table, the tree, the last
  entry of the working list, and the paths of the symbols 6 and 0.
\<close>

theorem compute_huffman_merges_witness:
  "compute_huffman [0, 0, 0, 0, 0, 0, 0 :: 16 word] =
     Some ([''101'', ''100'', ''011'', ''010'', ''001'', ''000'', ''11''],
           [(0, 0), (1, 1), (2, 2), (3, 3), (4, 4), (5, 5), (6, 6),
            (1, 0), (3, 2), (5, 4), (7, 6), (9, 8), (11, 10)]) \<and>
   loop_state [0, 0, 0, 0, 0, 0, 0 :: 16 word] 6 =
     Some ([''101'', ''100'', ''011'', ''010'', ''001'', ''000'', ''11''],
           [(0, [5, 4, 3, 2, 1, 0, 6], 12)],
           [(0, 0), (1, 1), (2, 2), (3, 3), (4, 4), (5, 5), (6, 6),
            (1, 0), (3, 2), (5, 4), (7, 6), (9, 8), (11, 10)]) \<and>
   children [(1, 0), (3, 2), (5, 4), (7, 6), (9, 8), (11, 10)]
     = [1, 0, 3, 2, 5, 4, 7, 6, 9, 8, 11, 10] \<and>
   descends [(0, 0), (1, 1), (2, 2), (3, 3), (4, 4), (5, 5), (6, 6),
             (1, 0), (3, 2), (5, 4), (7, 6), (9, 8), (11, 10)] 12 6 ''11'' \<and>
   descends [(0, 0), (1, 1), (2, 2), (3, 3), (4, 4), (5, 5), (6, 6),
             (1, 0), (3, 2), (5, 4), (7, 6), (9, 8), (11, 10)] 12 0 ''101''"
proof -
  let ?C = "[''101'', ''100'', ''011'', ''010'', ''001'', ''000'', ''11'']"
  let ?T = "[(0 :: nat, 0 :: nat), (1, 1), (2, 2), (3, 3), (4, 4), (5, 5), (6, 6),
            (1, 0), (3, 2), (5, 4), (7, 6), (9, 8), (11, 10)]"
  have ev: "compute_huffman [0, 0, 0, 0, 0, 0, 0 :: 16 word] = Some (?C, ?T)"
    by code_simp
  have ls: "loop_state [0, 0, 0, 0, 0, 0, 0 :: 16 word] 6 =
              Some (?C, [(0, [5, 4, 3, 2, 1, 0, 6], 12)], ?T)"
    by code_simp
  have chv: "children [(1, 0), (3, 2), (5, 4), (7, 6), (9, 8), (11, 10)]
               = [1, 0, 3, 2, 5, 4, 7, 6, 9, 8, 11, 10]"
    by (simp add: children_def)
  have len: "length [0, 0, 0, 0, 0, 0, 0 :: 16 word] = 7" by simp
  from compute_huffman_merges [OF len] obtain codes tree where
    r: "compute_huffman [0, 0, 0, 0, 0, 0, 0 :: 16 word] = Some (codes, tree)"
    and paths: "\<forall>s\<in>{0..<7}. descends tree 12 s (codes ! s)"
    by blast
  from r ev have eq: "codes = ?C" "tree = ?T" by simp_all
  have "(6 :: nat) \<in> {0..<7}" "(0 :: nat) \<in> {0..<7}" by simp_all
  with paths have "descends tree 12 6 (codes ! 6)" "descends tree 12 0 (codes ! 0)"
    by blast+
  then have d6: "descends ?T 12 6 ''11''" and d0: "descends ?T 12 0 ''101''"
    unfolding eq by simp_all
  from ev ls chv d6 d0 show ?thesis by (intro conjI)
qed

section \<open>Bit packing in convert_huffman\<close>













text \<open>
  The agreement of the two shapes is a precondition: with a global of fewer rows the
  function silently encodes only the first row, with a global of more rows it raises
  IndexError.
\<close>

lemma convert_huffman_shape_mismatch:
  "convert_huffman (1, 3) [[1, 0, 0], [0, 0, 1]]
      [''0'', ''1011'', ''1010'', ''1001'', ''1000'', ''111'', ''110''] = Some [176]"
  "convert_huffman (3, 3) [[1, 0, 0], [0, 0, 1]]
      [''0'', ''1011'', ''1010'', ''1001'', ''1000'', ''111'', ''110''] = None"
  by code_simp+

section \<open>Error diffusion targets in process_frame\<close>

lemma column_zero_receives_no_below_left:
  "((y', 0), 3) \<notin> set (diffusion_targets y x)"
  by (auto simp: diffusion_targets_def)

lemma targets_in_grid:
  "y < HEIGHT \<Longrightarrow> x < WIDTH \<Longrightarrow> t \<in> set (diffusion_targets y x) \<Longrightarrow> in_grid (fst t)"
  by (auto simp: diffusion_targets_def in_grid_def split: if_splits)

text \<open>
  C4 at the cell \<open>(y, x) = (0, 1)\<close>: its below-left neighbour \<open>(1, 0)\<close> lies inside
  the grid, yet the cell distributes only the shares 7, 5 and 1; the guard
  \<^verbatim>\<open>(x - 1) > 0\<close> skips the share 3. At \<open>x = 2\<close> all four shares are distributed,
  and at \<open>x = 0\<close> the below-left neighbour is outside the grid.
\<close>

theorem below_left_skipped_at_column_one:
  "in_grid (0, 1) \<and> in_grid (1, 0) \<and>
   diffusion_targets 0 1 = [((0, 2), 7), ((1, 1), 5), ((1, 2), 1)] \<and>
   diffusion_targets 0 2 = [((0, 3), 7), ((1, 2), 5), ((1, 3), 1), ((1, 1), 3)] \<and>
   diffusion_targets 0 0 = [((0, 1), 7), ((1, 0), 5), ((1, 1), 1)]"
  by (simp add: diffusion_targets_def in_grid_def WIDTH_def HEIGHT_def)

text \<open>
  In every state, the step of a cell in column 1 leaves its below-left neighbour as it
  was.
\<close>

lemma cell_step_column_one:
  assumes "length reduced = HEIGHT" "y + 1 < HEIGHT"
  shows "fst (cell_step (y, 1) (reduced, out)) ! (y + 1) ! 0 = reduced ! (y + 1) ! 0"
proof -
  have t: "diffusion_targets y 1 = [((y, 2), 7), ((y + 1, 1), 5), ((y + 1, 2), 1)]"
    using assms(2) by (simp add: diffusion_targets_def WIDTH_def)
  have l: "y + 1 < length reduced" "y < length reduced" using assms by simp_all
  show ?thesis
    unfolding cell_step_def prod.case Let_def t fst_conv
    using l by (simp add: add_share_def)
qed

end
